theory Spec2Isabelle
  imports Complex_Main
begin

section \<open>The math tools of \<open>mcp_math_server/server.py\<close>\<close>

text \<open>
  Every tool of the server is a Python function that takes validated arguments and returns
  a string. The embedding keeps the two ways a call can end apart:
  \<^item> the function returns a string: the value is \<open>Inr reply\<close>, where the reply records
    which f-string of the source was returned and the values formatted into it;
  \<^item> an exception leaves the function (no tool has a \<open>try\<close>): the value is \<open>Inl error\<close>.
\<close>

subsection \<open>Exceptions and replies\<close>

datatype py_error = ZeroDivisionError | OverflowError | ValueError

text \<open>
  \<open>Result v\<close> is the string \<^verbatim>\<open>f"Result: {result}"\<close>, \<open>Error msg\<close> the string
  \<^verbatim>\<open>"Error: " + msg\<close>.
\<close>

datatype 'a reply = Result 'a | Error string

text \<open>
  Formatting an integer into an f-string converts it to decimal digits, and the conversion
  raises \<open>ValueError\<close> ("Exceeds the limit (4300 digits) for integer string conversion")
  for an integer of more than 4300 digits. \<open>int_result v\<close> is \<^verbatim>\<open>f"Result: {result}"\<close>
  for an integer result.

  The conversion from decimal digits has the same limit, so an integer argument has at
  most 4300 digits; formatting an argument, as \<open>is_even\<close> and \<open>is_prime\<close> do, raises
  nothing.
\<close>

definition int_max_str_digits :: nat where
  "int_max_str_digits = 4300"

definition int_result :: "int \<Rightarrow> py_error + int reply" where
  "int_result result =
     (if 10 ^ int_max_str_digits \<le> \<bar>result\<bar> then Inl ValueError else Inr (Result result))"

subsection \<open>Python integers\<close>

text \<open>
  \<open>int\<close> arguments are unbounded Python integers, HOL's \<open>int\<close>. Python's \<^verbatim>\<open>%\<close> and
  \<^verbatim>\<open>//\<close> on integers are floored, as \<open>mod\<close> and \<open>div\<close> on \<open>int\<close> are; both raise for a
  zero right operand.
\<close>

definition int_mod :: "int \<Rightarrow> int \<Rightarrow> py_error + int" where
  "int_mod a b = (if b = 0 then Inl ZeroDivisionError else Inr (a mod b))"

text \<open>\<open>bit_length\<close> is \<^verbatim>\<open>int.bit_length\<close> on the integers that are not negative.\<close>

function bit_length :: "int \<Rightarrow> nat" where
  "bit_length n = (if n \<le> 0 then 0 else Suc (bit_length (n div 2)))"
  by pat_completeness auto
termination
  by (relation "measure nat") auto

declare bit_length.simps [simp del]

subsection \<open>\<open>is_even\<close>\<close>

text \<open>
  \<^verbatim>\<open>return f"{n} is {'even' if n % 2 == 0 else 'odd'}"\<close>
\<close>

datatype parity_reply = Is_Even int | Is_Odd int

definition is_even :: "int \<Rightarrow> py_error + parity_reply" where
  "is_even n =
     (case int_mod n 2 of
        Inl e \<Rightarrow> Inl e
      | Inr r \<Rightarrow> Inr (if r = 0 then Is_Even n else Is_Odd n))"

subsection \<open>\<open>factorial\<close>\<close>

text \<open>
  \<^verbatim>\<open>math.factorial(n)\<close> raises \<open>ValueError\<close> for a negative argument and
  \<open>OverflowError\<close> for an argument beyond the largest C \<open>long\<close> (\<open>2 ^ 63 - 1\<close> where a
  \<open>long\<close> has 64 bits); otherwise it multiplies the integers from 1 to n.
\<close>

fun product_upto :: "nat \<Rightarrow> int" where
  "product_upto 0 = 1"
| "product_upto (Suc k) = int (Suc k) * product_upto k"

definition long_max :: int where
  "long_max = 2 ^ 63 - 1"

definition math_factorial :: "int \<Rightarrow> py_error + int" where
  "math_factorial n =
     (if n < 0 then Inl ValueError
      else if long_max < n then Inl OverflowError
      else Inr (product_upto (nat n)))"

definition factorial :: "int \<Rightarrow> py_error + int reply" where
  "factorial n =
     (if n < 0 then Inr (Error ''Factorial is only defined for non-negative integers'')
      else case math_factorial n of
             Inl e \<Rightarrow> Inl e
           | Inr result \<Rightarrow> int_result result)"

subsection \<open>\<open>gcd\<close> and \<open>lcm\<close>\<close>

text \<open>
  \<^verbatim>\<open>math.gcd(a, b)\<close> is Euclid's algorithm on the absolute values; \<^verbatim>\<open>math.lcm(a, b)\<close>
  returns 0 when an argument is 0 and \<^verbatim>\<open>abs((a // g) * b)\<close> with \<^verbatim>\<open>g = gcd(a, b)\<close>
  otherwise. Neither raises on integers; the tools format the result.
\<close>

fun euclid :: "nat \<Rightarrow> nat \<Rightarrow> nat" where
  "euclid a b = (if b = 0 then a else euclid b (a mod b))"

definition math_gcd :: "int \<Rightarrow> int \<Rightarrow> int" where
  "math_gcd a b = int (euclid (nat \<bar>a\<bar>) (nat \<bar>b\<bar>))"

definition math_lcm :: "int \<Rightarrow> int \<Rightarrow> int" where
  "math_lcm a b = (if a = 0 \<or> b = 0 then 0 else \<bar>(a div math_gcd a b) * b\<bar>)"

definition gcd_tool :: "int \<Rightarrow> int \<Rightarrow> py_error + int reply" where
  "gcd_tool a b = int_result (math_gcd a b)"

definition lcm_tool :: "int \<Rightarrow> int \<Rightarrow> py_error + int reply" where
  "lcm_tool a b = int_result (math_lcm a b)"

subsection \<open>Python floats\<close>

text \<open>
  A \<open>float\<close> argument is a finite IEEE 754 double (the arguments arrive as JSON numbers),
  represented by its real value. Comparisons are exact.

  Arithmetic on doubles returns the exact result rounded to the nearest double, ties to
  the even significand. \<open>floor_log2 x\<close> is the exponent of the power of two at or below a
  positive \<open>x\<close>. Doubles with the exponent \<open>e\<close> are the multiples of \<open>2 ^ (e - 52)\<close>, and
  below \<open>2 ^ -1022\<close> (the subnormal doubles) the multiples of \<open>2 ^ -1074\<close>: \<open>round_double x\<close>
  is the multiple nearest to \<open>x\<close>. A result that rounds to \<open>2 ^ 1024\<close> or beyond is an
  infinity: \<open>binary64 x\<close> is the float an operation with the exact result \<open>x\<close> returns.
\<close>

type_synonym pyfloat = real

definition floor_log2 :: "real \<Rightarrow> int" where
  "floor_log2 x =
     (if 1 \<le> x then int (bit_length \<lfloor>x\<rfloor>) - 1
      else - int (bit_length (\<lceil>1 / x\<rceil> - 1)))"

definition round_half_even :: "real \<Rightarrow> int" where
  "round_half_even q =
     (let m = \<lfloor>q\<rfloor>
      in if 1 / 2 < q - of_int m \<or> (q - of_int m = 1 / 2 \<and> odd m) then m + 1 else m)"

definition ulp_exponent :: "real \<Rightarrow> int" where
  "ulp_exponent x = max (floor_log2 \<bar>x\<bar>) (- 1022) - 52"

definition round_double :: "real \<Rightarrow> pyfloat" where
  "round_double x =
     (if x = 0 then 0
      else let u = 2 powi ulp_exponent x
           in sgn x * (of_int (round_half_even (\<bar>x\<bar> / u)) * u))"

datatype float_value = Finite pyfloat | PosInf | NegInf

definition binary64 :: "real \<Rightarrow> float_value" where
  "binary64 x =
     (let r = round_double x
      in if 2 ^ 1024 \<le> \<bar>r\<bar> then (if 0 < x then PosInf else NegInf) else Finite r)"

text \<open>
  \<^verbatim>\<open>a / b\<close> raises \<open>ZeroDivisionError\<close> for a zero divisor. \<open>float_truediv\<close> is the
  quotient before it is rounded, \<open>float_div\<close> the float that \<^verbatim>\<open>a / b\<close> returns.
\<close>

definition float_truediv :: "pyfloat \<Rightarrow> pyfloat \<Rightarrow> py_error + pyfloat" where
  "float_truediv a b = (if b = 0 then Inl ZeroDivisionError else Inr (a / b))"

definition float_div :: "pyfloat \<Rightarrow> pyfloat \<Rightarrow> py_error + float_value" where
  "float_div a b =
     (case float_truediv a b of
        Inl e \<Rightarrow> Inl e
      | Inr q \<Rightarrow> Inr (binary64 q))"

text \<open>
  \<^verbatim>\<open>a % b\<close> on floats (\<open>float_rem\<close> of CPython) raises \<open>ZeroDivisionError\<close> for a zero
  divisor; otherwise it takes C's \<open>fmod\<close>, which is exact and whose result has the sign
  of \<open>a\<close>, and adds \<open>b\<close>, in double arithmetic, when that result is not zero and its sign
  differs from the sign of \<open>b\<close>.
\<close>

definition trunc :: "real \<Rightarrow> int" where
  "trunc x = (if 0 \<le> x then \<lfloor>x\<rfloor> else \<lceil>x\<rceil>)"

definition fmod :: "pyfloat \<Rightarrow> pyfloat \<Rightarrow> pyfloat" where
  "fmod a b = a - b * of_int (trunc (a / b))"

definition float_rem :: "pyfloat \<Rightarrow> pyfloat \<Rightarrow> py_error + pyfloat" where
  "float_rem a b =
     (if b = 0 then Inl ZeroDivisionError
      else let m = fmod a b
           in Inr (if m \<noteq> 0
                   then (if (b < 0) \<noteq> (m < 0) then round_double (m + b) else m)
                   else 0))"

text \<open>
  \<^verbatim>\<open>base ** exponent\<close> on floats (\<open>float_pow\<close> of CPython), in the order of its tests:
  exponent zero gives 1; a zero base raises \<open>ZeroDivisionError\<close> for a negative exponent
  and gives 0 otherwise; a negative base with a non-integral exponent gives a complex
  number, computed in polar form from the C library's \<open>pow\<close> of the absolute value;
  otherwise the C library's \<open>pow\<close> is called. In both cases a result of \<open>pow\<close> beyond the
  range of doubles raises \<open>OverflowError\<close>.

  The C library's \<open>pow\<close> and \<open>log\<close> are not specified to the last bit: their values are
  written as the exact real results.
\<close>

datatype pynumber = PyFloat real | PyComplex complex

definition overflows :: "real \<Rightarrow> bool" where
  "overflows r = (2 ^ 1024 - 2 ^ 970 \<le> \<bar>r\<bar>)"

definition float_pow :: "pyfloat \<Rightarrow> pyfloat \<Rightarrow> py_error + pynumber" where
  "float_pow v w =
     (if w = 0 then Inr (PyFloat 1)
      else if v = 0 then (if w < 0 then Inl ZeroDivisionError else Inr (PyFloat 0))
      else if v < 0 \<and> of_int \<lfloor>w\<rfloor> \<noteq> w then
        (let len = \<bar>v\<bar> powr w; phase = pi * w
         in if overflows len then Inl OverflowError
            else Inr (PyComplex (Complex (len * cos phase) (len * sin phase))))
      else
        (let r = (if v < 0 then (if odd \<lfloor>w\<rfloor> then - (\<bar>v\<bar> powr w) else \<bar>v\<bar> powr w)
                  else v powr w)
         in if overflows r then Inl OverflowError else Inr (PyFloat r)))"




subsection \<open>\<open>divide\<close>, \<open>power\<close>, \<open>logarithm\<close>, \<open>modulo\<close>\<close>

definition divide_tool :: "pyfloat \<Rightarrow> pyfloat \<Rightarrow> py_error + float_value reply" where
  "divide_tool a b =
     (if b = 0 then Inr (Error ''Division by zero is not allowed'')
      else case float_div a b of
             Inl e \<Rightarrow> Inl e
           | Inr result \<Rightarrow> Inr (Result result))"

definition power_tool :: "pyfloat \<Rightarrow> pyfloat \<Rightarrow> py_error + pynumber reply" where
  "power_tool base exponent =
     (case float_pow base exponent of
        Inl e \<Rightarrow> Inl e
      | Inr result \<Rightarrow> Inr (Result result))"


definition modulo_tool :: "pyfloat \<Rightarrow> pyfloat \<Rightarrow> py_error + pyfloat reply" where
  "modulo_tool a b =
     (if b = 0 then Inr (Error ''Modulo by zero is not allowed'')
      else case float_rem a b of
             Inl e \<Rightarrow> Inl e
           | Inr result \<Rightarrow> Inr (Result result))"

subsection \<open>\<open>is_prime\<close>\<close>

text \<open>
  \<open>is_prime\<close> bounds its loop by \<^verbatim>\<open>int(math.sqrt(n))\<close>: the unbounded integer \<open>n\<close> is
  converted to a double, the square root is taken in double arithmetic, and the root is
  truncated to an integer. Here the double format decides which divisors are tried, so
  these three steps are modelled as binary64 prescribes them, on the real values of the
  doubles.
\<close>

text \<open>
  Converting an integer to a float keeps the 53 leading bits, rounds to nearest with ties
  to even, and raises \<open>OverflowError\<close> ("int too large to convert to float") when the
  rounded value is \<open>2 ^ 1024\<close> or more.
\<close>

definition float_of_int :: "int \<Rightarrow> py_error + pyfloat" where
  "float_of_int n =
     (let m = \<bar>n\<bar>; b = bit_length m
      in if b \<le> 53 then Inr (of_int n)
         else let sh = b - 53; q = m div 2 ^ sh; r = m mod 2 ^ sh; half = 2 ^ (sh - 1);
                  q' = (if half < r \<or> (r = half \<and> odd q) then q + 1 else q);
                  v = q' * 2 ^ sh
              in if 2 ^ 1024 \<le> v then Inl OverflowError
                 else Inr (of_int (sgn n * v)))"

text \<open>\<open>isqrt n\<close> is the integer square root.\<close>

function isqrt :: "int \<Rightarrow> int" where
  "isqrt n =
     (if n < 2 then n
      else let r = 2 * isqrt (n div 4)
           in if (r + 1) * (r + 1) \<le> n then r + 1 else r)"
  by pat_completeness auto
termination
  by (relation "measure nat") auto

declare isqrt.simps [simp del]

text \<open>
  \<^verbatim>\<open>math.sqrt(x)\<close> raises \<open>ValueError\<close> for a negative argument and otherwise returns the
  double nearest to the square root (IEEE 754 requires the correctly rounded result):
  with \<open>4 ^ e \<le> x < 4 ^ (e + 1)\<close> the root lies in \<open>[2 ^ e, 2 ^ (e + 1))\<close>, where doubles
  are the multiples \<open>m * u\<close> of \<open>u = 2 ^ (e - 52)\<close>; \<open>m\<close> is the integer square root of
  \<open>x / u\<^sup>2\<close>, and it is rounded up when the root is beyond \<open>m + 1/2\<close>.
\<close>

definition math_sqrt :: "pyfloat \<Rightarrow> py_error + pyfloat" where
  "math_sqrt x =
     (if x < 0 then Inl ValueError
      else if x = 0 then Inr 0
      else let e = floor_log2 x div 2; u = 2 powi (e - 52); y = x / (u * u);
               m = isqrt \<lfloor>y\<rfloor>; mid = of_int (m * m + m) + 1 / 4;
               m' = (if mid < y \<or> (mid = y \<and> odd m) then m + 1 else m)
           in Inr (of_int m' * u))"

text \<open>\<^verbatim>\<open>int(x)\<close> of a float truncates towards zero.\<close>

definition int_of_float :: "pyfloat \<Rightarrow> int" where
  "int_of_float x = trunc x"

text \<open>
  The replies of \<open>is_prime\<close>:
  \<^item> \<open>Less_Than_2 n\<close> is \<^verbatim>\<open>f"Error: {n} is less than 2. Primality is only defined for integers >= 2"\<close>;
  \<^item> \<open>Is_Prime n\<close> is \<^verbatim>\<open>f"{n} is prime"\<close>;
  \<^item> \<open>Is_Not_Prime n\<close> is \<^verbatim>\<open>f"{n} is not prime"\<close>;
  \<^item> \<open>Divisible_By n i\<close> is \<^verbatim>\<open>f"{n} is not prime (divisible by {i})"\<close>.

  \<open>trial_division n i stop\<close> is the loop \<^verbatim>\<open>for i in range(i, stop, 2)\<close> with the
  \<^verbatim>\<open>return f"{n} is prime"\<close> that follows it.
\<close>

datatype prime_reply = Less_Than_2 int | Is_Prime int | Is_Not_Prime int | Divisible_By int int

function trial_division :: "int \<Rightarrow> int \<Rightarrow> int \<Rightarrow> py_error + prime_reply" where
  "trial_division n i stop =
     (if i < stop then
        (case int_mod n i of
           Inl e \<Rightarrow> Inl e
         | Inr r \<Rightarrow> if r = 0 then Inr (Divisible_By n i) else trial_division n (i + 2) stop)
      else Inr (Is_Prime n))"
  by pat_completeness auto
termination
  by (relation "measure (\<lambda>(n, i, stop). nat (stop - i))") auto

declare trial_division.simps [simp del]

definition is_prime :: "int \<Rightarrow> py_error + prime_reply" where
  "is_prime n =
     (if n < 2 then Inr (Less_Than_2 n)
      else if n = 2 then Inr (Is_Prime n)
      else case int_mod n 2 of
             Inl e \<Rightarrow> Inl e
           | Inr r \<Rightarrow>
               if r = 0 then Inr (Is_Not_Prime n)
               else case float_of_int n of
                      Inl e \<Rightarrow> Inl e
                    | Inr x \<Rightarrow>
                        (case math_sqrt x of
                           Inl e \<Rightarrow> Inl e
                         | Inr sq \<Rightarrow> trial_division n 3 (int_of_float sq + 1)))"

subsection \<open>The primality algorithm as the specification words it\<close>

text \<open>
  The specification's algorithm, for \<open>n \<ge> 2\<close>: 2 is prime; an even \<open>n\<close> is composite;
  otherwise \<open>n\<close> is divided by every odd integer from 3 up to and including
  \<open>floor(sqrt(n))\<close>, the first divisor found is reported, and \<open>n\<close> is prime when there is
  none. Its reference for the verdict: \<open>n\<close> has no divisor \<open>d\<close> with \<open>2 \<le> d < n\<close>.
\<close>

definition is_prime_spec :: "int \<Rightarrow> prime_reply" where
  "is_prime_spec n =
     (if n = 2 then Is_Prime n
      else if n mod 2 = 0 then Is_Not_Prime n
      else case find (\<lambda>i. n mod i = 0) (filter odd [3..isqrt n]) of
             None \<Rightarrow> Is_Prime n
           | Some i \<Rightarrow> Divisible_By n i)"

definition prime_ref :: "int \<Rightarrow> bool" where
  "prime_ref n = (\<forall>d\<in>{2..<n}. \<not> d dvd n)"

subsection \<open>The remainder as the specification words it\<close>

text \<open>The remainder of floored division, \<open>a - b * floor(a / b)\<close>, on the reals.\<close>

definition floored_remainder :: "real \<Rightarrow> real \<Rightarrow> real" where
  "floored_remainder a b = a - b * of_int \<lfloor>a / b\<rfloor>"

section \<open>Properties\<close>

lemma product_upto_fact: "product_upto k = fact k"
  by (induction k) simp_all

lemma euclid_gcd: "euclid a b = gcd a b"
proof (induction a b rule: euclid.induct)
  case (1 a b)
  show ?case
  proof (cases "b = 0")
    case True
    then show ?thesis by simp
  next
    case False
    with "1" have "euclid a b = gcd b (a mod b)" by simp
    also have "\<dots> = gcd a b" by (simp add: gcd.commute gcd_red_nat[symmetric])
    finally show ?thesis .
  qed
qed

lemma math_gcd_eq: "math_gcd a b = gcd a b"
  unfolding math_gcd_def euclid_gcd by (rule gcd_int_def [symmetric])

lemma math_lcm_eq: "math_lcm a b = lcm a b"
proof (cases "a = 0 \<or> b = 0")
  case True
  then show ?thesis by (auto simp: math_lcm_def)
next
  case False
  have "gcd a b dvd a" by simp
  then have "(a div gcd a b) * b = (a * b) div gcd a b"
    by (simp add: div_mult_swap mult.commute)
  then have "\<bar>(a div gcd a b) * b\<bar> = lcm a b"
    by (simp add: lcm_gcd)
  with False show ?thesis by (simp add: math_lcm_def math_gcd_eq)
qed


subsection \<open>Parity\<close>

text \<open>
  Claim C9. For every integer \<open>n\<close>, negative ones included, \<open>is_even\<close> raises nothing and
  answers "even" exactly when \<open>n % 2 == 0\<close>, that is when 2 divides \<open>n\<close>, and "odd"
  otherwise.
\<close>

theorem is_even_correct:
  "is_even n = Inr (if n mod 2 = 0 then Is_Even n else Is_Odd n) \<and>
   (is_even n = Inr (Is_Even n)) = (2 dvd n) \<and>
   (is_even n = Inr (Is_Odd n)) = (\<not> 2 dvd n)"
  by (auto simp: is_even_def int_mod_def)

subsection \<open>Formatting integers\<close>

lemma int_result_small:
  assumes "\<bar>v\<bar> < 10 ^ k" "k \<le> int_max_str_digits"
  shows "int_result v = Inr (Result v)"
proof -
  have "(10::int) ^ k \<le> 10 ^ int_max_str_digits"
    using assms(2) by (rule power_increasing) simp
  with assms(1) have "\<not> 10 ^ int_max_str_digits \<le> \<bar>v\<bar>" by linarith
  then show ?thesis by (simp add: int_result_def)
qed

lemma int_result_large:
  assumes "10 ^ k \<le> \<bar>v\<bar>" "int_max_str_digits \<le> k"
  shows "int_result v = Inl ValueError"
proof -
  have "(10::int) ^ int_max_str_digits \<le> 10 ^ k"
    using assms(2) by (rule power_increasing) simp
  with assms(1) have "10 ^ int_max_str_digits \<le> \<bar>v\<bar>" by linarith
  then show ?thesis by (simp add: int_result_def)
qed

subsection \<open>Factorial\<close>

lemma product_upto_pos: "0 < product_upto k"
  by (induction k) simp_all

lemma product_upto_lower: "product_upto m * (int m + 1) ^ k \<le> product_upto (m + k)"
proof (induction k)
  case 0
  show ?case by simp
next
  case (Suc k)
  have "product_upto m * (int m + 1) ^ Suc k = (int m + 1) * (product_upto m * (int m + 1) ^ k)"
    by simp
  also have "\<dots> \<le> (int m + 1) * product_upto (m + k)"
    using Suc.IH by (intro mult_left_mono) simp_all
  also have "\<dots> \<le> int (Suc (m + k)) * product_upto (m + k)"
    using product_upto_pos [of "m + k"] by (intro mult_right_mono) simp_all
  finally show ?case by simp
qed

lemma product_upto_mono: "m \<le> n \<Longrightarrow> product_upto m \<le> product_upto n"
proof (induction n)
  case 0
  then show ?case by simp
next
  case (Suc n)
  show ?case
  proof (cases "m = Suc n")
    case True
    then show ?thesis by simp
  next
    case False
    with Suc have "product_upto m \<le> product_upto n" by simp
    also have "\<dots> \<le> int (Suc n) * product_upto n"
      using product_upto_pos [of n] by simp
    finally show ?thesis by simp
  qed
qed

lemma product_upto_lower':
  assumes "n = m + k" "c = int m + 1"
  shows "product_upto m * c ^ k \<le> product_upto n"
  unfolding assms by (rule product_upto_lower)

lemma power_combine:
  fixes b :: int
  assumes "b ^ p = c" "b ^ q = d" "n = p * i + q * j"
  shows "b ^ n = c ^ i * d ^ j"
  unfolding assms(3) assms(1,2) [symmetric] by (simp only: power_add power_mult)

lemma product_upto_2000: "10 ^ 4803 \<le> product_upto 2000"
proof -
  have a: "product_upto 99 * 100 ^ 900 \<le> product_upto 999"
    by (rule product_upto_lower') simp_all
  have b: "product_upto 999 * 1000 ^ 1001 \<le> product_upto 2000"
    by (rule product_upto_lower') simp_all
  have p1: "(0::int) \<le> 100 ^ 900" by (rule zero_le_power) simp
  have p2: "(0::int) \<le> 1000 ^ 1001" by (rule zero_le_power) simp
  have "1 \<le> product_upto 99" using product_upto_pos [of 99] by linarith
  then have "1 * 100 ^ 900 \<le> product_upto 99 * 100 ^ 900"
    using p1 by (rule mult_right_mono)
  then have "100 ^ 900 \<le> product_upto 99 * 100 ^ 900" by (simp only: mult_1)
  from this a have c: "100 ^ 900 \<le> product_upto 999" by (rule order_trans)
  have "100 ^ 900 * 1000 ^ 1001 \<le> product_upto 999 * 1000 ^ 1001"
    using c p2 by (rule mult_right_mono)
  from this b have d: "100 ^ 900 * 1000 ^ 1001 \<le> product_upto 2000" by (rule order_trans)
  have "(10::int) ^ 4803 = 100 ^ 900 * 1000 ^ 1001"
    by (rule power_combine [of 10 2 100 3 1000]) simp_all
  with d show ?thesis by (simp only:)
qed

lemma factorial_below_limit:
  assumes "0 \<le> n" "n \<le> long_max" "fact (nat n) < (10::int) ^ int_max_str_digits"
  shows "factorial n = Inr (Result (fact (nat n)))"
proof -
  have "\<bar>fact (nat n) :: int\<bar> < 10 ^ int_max_str_digits" using assms(3) by simp
  then have "int_result (fact (nat n)) = Inr (Result (fact (nat n)))"
    by (rule int_result_small) simp
  then show ?thesis
    using assms(1,2) by (simp add: factorial_def math_factorial_def product_upto_fact)
qed

lemma factorial_negative:
  "n < 0 \<Longrightarrow> factorial n = Inr (Error ''Factorial is only defined for non-negative integers'')"
  by (simp add: factorial_def)

lemma factorial_at_least_2000:
  assumes "2000 \<le> n"
  shows "factorial n = Inl (if long_max < n then OverflowError else ValueError)"
proof (cases "long_max < n")
  case True
  then show ?thesis using assms by (simp add: factorial_def math_factorial_def)
next
  case False
  have "2000 \<le> nat n" using assms by simp
  then have "product_upto 2000 \<le> product_upto (nat n)" by (rule product_upto_mono)
  with product_upto_2000 have "10 ^ 4803 \<le> product_upto (nat n)" by (rule order_trans)
  moreover have "product_upto (nat n) \<le> \<bar>product_upto (nat n)\<bar>" by (rule abs_ge_self)
  ultimately have "10 ^ 4803 \<le> \<bar>product_upto (nat n)\<bar>" by (rule order_trans)
  then have "int_result (product_upto (nat n)) = Inl ValueError"
    by (rule int_result_large) (simp add: int_max_str_digits_def)
  then show ?thesis using assms False by (simp add: factorial_def math_factorial_def)
qed

text \<open>
  Claim C7 says that \<open>factorial\<close> returns \<open>n!\<close> for every \<open>n \<ge> 0\<close>. The code formats the
  product into its reply, and the product of the integers up to 2000 has more than 4300
  digits: the conversion raises \<open>ValueError\<close>, which leaves the tool, as it does for
  every larger argument up to the largest C \<open>long\<close>; beyond that \<^verbatim>\<open>math.factorial\<close>
  itself raises \<open>OverflowError\<close>.
\<close>

theorem factorial_2000_raises:
  "factorial 2000 = Inl ValueError \<and> factorial (2 ^ 63) = Inl OverflowError"
proof
  show "factorial 2000 = Inl ValueError"
    using factorial_at_least_2000 [of 2000] by (simp add: long_max_def)
  show "factorial (2 ^ 63) = Inl OverflowError"
    using factorial_at_least_2000 [of "2 ^ 63"] by (simp add: long_max_def)
qed

lemma factorial_0: "factorial 0 = Inr (Result 1)"
proof -
  have "(1::int) < 10 ^ int_max_str_digits"
    by (rule one_less_power) (simp_all add: int_max_str_digits_def)
  then show ?thesis
    using factorial_below_limit [of 0] by (simp add: long_max_def)
qed

lemma factorial_5: "factorial 5 = Inr (Result 120)"
proof -
  have five: "fact (nat 5) = (120::int)" by (simp add: eval_nat_numeral)
  have "(120::int) < 10 ^ 3" by simp
  also have "(10::int) ^ 3 \<le> 10 ^ int_max_str_digits"
    by (rule power_increasing) (simp_all add: int_max_str_digits_def)
  finally show ?thesis
    using factorial_below_limit [of 5] five by (simp add: long_max_def)
qed

subsection \<open>Greatest common divisor and least common multiple\<close>

lemma gcd_tool_eq:
  assumes "\<bar>a\<bar> < 10 ^ int_max_str_digits" "\<bar>b\<bar> < 10 ^ int_max_str_digits"
  shows "gcd_tool a b = Inr (Result (gcd a b))"
proof -
  have "\<bar>gcd a b\<bar> < 10 ^ int_max_str_digits"
  proof (cases "a = 0")
    case True
    then show ?thesis using assms(2) by simp
  next
    case False
    have "gcd a b dvd \<bar>a\<bar>" by simp
    moreover have "0 < \<bar>a\<bar>" using False by simp
    ultimately have "gcd a b \<le> \<bar>a\<bar>" by (rule zdvd_imp_le)
    with assms(1) show ?thesis by simp
  qed
  then have "int_result (gcd a b) = Inr (Result (gcd a b))"
    by (rule int_result_small) simp
  then show ?thesis by (simp add: gcd_tool_def math_gcd_eq)
qed

lemma lcm_tool_eq:
  assumes "lcm a b < 10 ^ int_max_str_digits"
  shows "lcm_tool a b = Inr (Result (lcm a b))"
proof -
  have "\<bar>lcm a b\<bar> < 10 ^ int_max_str_digits" using assms by simp
  then have "int_result (lcm a b) = Inr (Result (lcm a b))"
    by (rule int_result_small) simp
  then show ?thesis by (simp add: lcm_tool_def math_lcm_eq)
qed

lemma lcm_consecutive:
  fixes a :: int
  assumes "0 < a"
  shows "lcm a (a + 1) = a * (a + 1)"
proof -
  have "gcd a (a + 1) = gcd a 1" by (rule gcd_add2)
  then have "gcd a (a + 1) = 1" by simp
  then have "lcm a (a + 1) = \<bar>a * (a + 1)\<bar>" by (simp add: lcm_gcd)
  also have "\<dots> = a * (a + 1)" using assms by simp
  finally show ?thesis .
qed

text \<open>
  Claim C8 says that \<open>gcd\<close> and \<open>lcm\<close> return a result for all integers. The code formats
  the result into its reply; the least common multiple of the 2201-digit integers
  \<open>10 ^ 2200\<close> and \<open>10 ^ 2200 + 1\<close> is their product, of more than 4300 digits, and the
  conversion raises \<open>ValueError\<close>, which leaves the tool.
\<close>

theorem lcm_tool_raises:
  "lcm_tool (10 ^ 2200) (10 ^ 2200 + 1) = Inl ValueError"
proof -
  define a :: int where "a = 10 ^ 2200"
  have apos: "0 < a" unfolding a_def by (rule zero_less_power) simp
  have l: "lcm a (a + 1) = a * (a + 1)" using apos by (rule lcm_consecutive)
  have "(10::int) ^ 4400 = 10 ^ 2200 * 10 ^ 2200"
    by (rule power_combine [of 10 1 10 1 10 4400 2200 2200]) simp_all
  then have "(10::int) ^ 4400 = a * a" by (simp only: a_def)
  also have "\<dots> \<le> a * (a + 1)" using apos by (intro mult_left_mono) simp_all
  also have "\<dots> \<le> \<bar>lcm a (a + 1)\<bar>" unfolding l by (rule abs_ge_self)
  finally have "int_result (lcm a (a + 1)) = Inl ValueError"
    by (rule int_result_large) (simp add: int_max_str_digits_def)
  then have "lcm_tool a (a + 1) = Inl ValueError"
    by (simp only: lcm_tool_def math_lcm_eq)
  then show ?thesis by (simp only: a_def)
qed

lemma gcd_tool_48_18: "gcd_tool 48 18 = Inr (Result 6)"
proof -
  have g: "gcd (48::int) 18 = 6" by code_simp
  have "\<bar>6::int\<bar> < 10 ^ 1" by simp
  then have "int_result 6 = Inr (Result 6)"
    by (rule int_result_small) (simp add: int_max_str_digits_def)
  then show ?thesis by (simp add: gcd_tool_def math_gcd_eq g)
qed

lemma lcm_tool_4_6: "lcm_tool 4 6 = Inr (Result 12)"
proof -
  have l: "lcm (4::int) 6 = 12" by code_simp
  have "\<bar>12::int\<bar> < 10 ^ 2" by simp
  then have "int_result 12 = Inr (Result 12)"
    by (rule int_result_small) (simp add: int_max_str_digits_def)
  then show ?thesis by (simp add: lcm_tool_def math_lcm_eq l)
qed

text \<open>
  Claim C10. At the zero edge cases \<open>gcd(0, 0)\<close> returns the result 0, and for every
  integer \<open>a\<close> both \<open>lcm(a, 0)\<close> and \<open>lcm(0, a)\<close> return the result 0.
\<close>

theorem gcd_lcm_zero:
  "gcd_tool 0 0 = Inr (Result 0) \<and>
   lcm_tool a 0 = Inr (Result 0) \<and>
   lcm_tool 0 a = Inr (Result 0)"
proof -
  have "\<bar>0::int\<bar> < 10 ^ 0" by simp
  then have "int_result 0 = Inr (Result 0)"
    by (rule int_result_small) simp
  then show ?thesis
    by (simp add: gcd_tool_def lcm_tool_def math_lcm_def math_gcd_eq)
qed


subsection \<open>Rounding to a double\<close>

lemma bit_length_bounds:
  "0 < n \<Longrightarrow> 2 ^ bit_length n \<le> 2 * n \<and> n < 2 ^ bit_length n"
proof (induction n rule: bit_length.induct)
  case (1 n)
  show ?case
  proof (cases "n div 2 \<le> 0")
    case True
    with "1.prems" have "n = 1" by linarith
    then show ?thesis by (simp add: bit_length.simps [of 1] bit_length.simps [of 0])
  next
    case False
    then have pos: "0 < n div 2" by simp
    with "1.IH" "1.prems" have ih: "2 ^ bit_length (n div 2) \<le> 2 * (n div 2)"
      "n div 2 < 2 ^ bit_length (n div 2)" by simp_all
    have bl: "bit_length n = Suc (bit_length (n div 2))"
      using "1.prems" by (subst bit_length.simps) simp
    have "2 * (n div 2) \<le> n" "n \<le> 2 * (n div 2) + 1" by linarith+
    with ih show ?thesis unfolding bl by simp
  qed
qed


lemma bit_length_real:
  assumes "1 \<le> n"
  shows "(2::real) ^ (bit_length n - 1) \<le> of_int n" and "of_int n + 1 \<le> (2::real) ^ bit_length n"
    and "1 \<le> bit_length n"
proof -
  have npos: "0 < n" using assms by simp
  note b = bit_length_bounds [OF npos]
  have "(2::int) ^ 0 < 2 ^ bit_length n" using b assms by simp
  then have "0 < bit_length n" by (rule power_less_imp_less_exp [rotated]) simp
  then show one: "1 \<le> bit_length n" by simp
  then obtain j where j: "bit_length n = Suc j" by (cases "bit_length n") auto
  have "(2::int) ^ bit_length n = 2 * 2 ^ (bit_length n - 1)"
    unfolding j by simp
  with b have "(2::int) ^ (bit_length n - 1) \<le> n" by simp
  then have "of_int ((2::int) ^ (bit_length n - 1)) \<le> (of_int n :: real)"
    by (simp only: of_int_le_iff)
  then show "(2::real) ^ (bit_length n - 1) \<le> of_int n" by simp
  have "n + 1 \<le> 2 ^ bit_length n" using b by simp
  then have "of_int (n + 1) \<le> (of_int ((2::int) ^ bit_length n) :: real)"
    by (simp only: of_int_le_iff)
  then show "of_int n + 1 \<le> (2::real) ^ bit_length n" by simp
qed

lemma floor_log2_bounds:
  assumes "0 < x"
  shows "2 powi floor_log2 x \<le> x" and "x < 2 powi (floor_log2 x + 1)"
proof -
  have "2 powi floor_log2 x \<le> x \<and> x < 2 powi (floor_log2 x + 1)"
  proof (cases "1 \<le> x")
    case True
    define n where "n = \<lfloor>x\<rfloor>"
    have n1: "1 \<le> n" using True by (simp add: n_def le_floor_iff)
    note b = bit_length_real [OF n1]
    have fl: "floor_log2 x = int (bit_length n - 1)"
      using True b(3) by (simp add: floor_log2_def n_def)
    have fl1: "floor_log2 x + 1 = int (bit_length n)"
      using b(3) unfolding fl by simp
    have "of_int n \<le> x" "x < of_int n + 1" unfolding n_def by linarith+
    with b(1,2) show ?thesis unfolding fl1 unfolding fl power_int_of_nat by linarith
  next
    case False
    define c where "c = \<lceil>1 / x\<rceil> - 1"
    have "1 < 1 / x" using False assms by simp
    then have c1: "1 \<le> c" unfolding c_def by linarith
    note b = bit_length_real [OF c1]
    define k where "k = bit_length c"
    have fl: "floor_log2 x = - int k"
      using False by (simp add: floor_log2_def c_def k_def)
    have cx: "of_int c < 1 / x" "1 / x \<le> of_int c + 1" unfolding c_def by linarith+
    have kpos: "1 \<le> k" using b(3) by (simp add: k_def)
    have "1 / x \<le> 2 ^ k" using cx(2) b(2) unfolding k_def by linarith
    then have "1 \<le> 2 ^ k * x" using assms by (simp add: field_simps)
    then have lo: "1 / 2 ^ k \<le> x" by (simp add: field_simps)
    have "2 ^ (k - 1) < 1 / x" using cx(1) b(1) unfolding k_def by linarith
    then have "2 ^ (k - 1) * x < 1" using assms by (simp add: field_simps)
    then have hi: "x < 1 / 2 ^ (k - 1)" by (simp add: field_simps)
    have p1: "(2::real) powi (- int k) = 1 / 2 ^ k"
      by (simp add: power_int_minus_divide)
    have "- int k + 1 = - int (k - 1)" using kpos by simp
    then have p2: "(2::real) powi (- int k + 1) = 1 / 2 ^ (k - 1)"
      by (simp only: power_int_minus_divide power_int_of_nat)
    show ?thesis unfolding fl p1 p2 using lo hi by simp
  qed
  then show "2 powi floor_log2 x \<le> x" and "x < 2 powi (floor_log2 x + 1)" by simp_all
qed


lemma round_half_even_error: "\<bar>of_int (round_half_even q) - q\<bar> \<le> 1 / 2"
proof -
  have "of_int \<lfloor>q\<rfloor> \<le> q" "q < of_int \<lfloor>q\<rfloor> + 1" by linarith+
  then show ?thesis by (auto simp: round_half_even_def Let_def)
qed

lemma round_half_even_ge:
  assumes "of_int k - 1 / 2 < q"
  shows "k \<le> round_half_even q"
proof -
  have "\<bar>of_int (round_half_even q) - q\<bar> \<le> 1 / 2" by (rule round_half_even_error)
  with assms have "of_int k - 1 < (of_int (round_half_even q) :: real)" by linarith
  then have "(of_int (k - 1) :: real) < of_int (round_half_even q)" by simp
  then have "k - 1 < round_half_even q" by (simp only: of_int_less_iff)
  then show ?thesis by simp
qed

lemma round_half_even_le:
  assumes "q < of_int k + 1 / 2"
  shows "round_half_even q \<le> k"
proof -
  have "\<bar>of_int (round_half_even q) - q\<bar> \<le> 1 / 2" by (rule round_half_even_error)
  with assms have "(of_int (round_half_even q) :: real) < of_int k + 1" by linarith
  then have "(of_int (round_half_even q) :: real) < of_int (k + 1)" by simp
  then have "round_half_even q < k + 1" by (simp only: of_int_less_iff)
  then show ?thesis by simp
qed

lemma round_half_even_tie:
  assumes "q = of_int k - 1 / 2" "even k"
  shows "round_half_even q = k"
proof -
  have "\<lfloor>q\<rfloor> = k - 1" unfolding assms(1) by linarith
  moreover have "odd (k - 1)" using assms(2) by simp
  ultimately show ?thesis unfolding round_half_even_def Let_def using assms(1) by simp
qed

lemma ulp_pos: "0 < (2::real) powi n"
  by (simp add: power_int_def)

lemma round_double_form:
  assumes "x \<noteq> 0"
  shows "round_double x =
    sgn x * (of_int (round_half_even (\<bar>x\<bar> / 2 powi ulp_exponent x)) * 2 powi ulp_exponent x)"
  using assms by (simp add: round_double_def Let_def)

lemma round_double_abs:
  assumes "x \<noteq> 0"
  shows "\<bar>round_double x\<bar> =
    of_int (round_half_even (\<bar>x\<bar> / 2 powi ulp_exponent x)) * 2 powi ulp_exponent x"
proof -
  define u where "u = (2::real) powi ulp_exponent x"
  have u: "0 < u" unfolding u_def by (rule ulp_pos)
  have "0 \<le> \<bar>x\<bar> / u" using u by simp
  then have "of_int 0 - 1 / 2 < \<bar>x\<bar> / u" by simp
  then have "0 \<le> round_half_even (\<bar>x\<bar> / u)" by (rule round_half_even_ge)
  then have "0 \<le> of_int (round_half_even (\<bar>x\<bar> / u)) * u" (is "0 \<le> ?P") using u by simp
  then have P: "\<bar>?P\<bar> = ?P" by (rule abs_of_nonneg)
  have s: "\<bar>sgn x\<bar> = 1" using assms by (simp add: abs_sgn_eq)
  have "\<bar>sgn x * ?P\<bar> = \<bar>sgn x\<bar> * \<bar>?P\<bar>" by (rule abs_mult)
  then have "\<bar>sgn x * ?P\<bar> = ?P" unfolding s P by simp
  then show ?thesis
    unfolding round_double_form [OF assms] u_def [symmetric] .
qed

lemma round_double_error:
  assumes "x \<noteq> 0"
  shows "\<bar>round_double x - x\<bar> \<le> 2 powi ulp_exponent x / 2"
proof -
  define u where "u = (2::real) powi ulp_exponent x"
  define m where "m = round_half_even (\<bar>x\<bar> / u)"
  have u: "0 < u" unfolding u_def by (rule ulp_pos)
  have "\<bar>of_int m - \<bar>x\<bar> / u\<bar> \<le> 1 / 2" unfolding m_def by (rule round_half_even_error)
  then have "\<bar>of_int m - \<bar>x\<bar> / u\<bar> * u \<le> 1 / 2 * u" using u by (intro mult_right_mono) simp_all
  moreover have "\<bar>of_int m - \<bar>x\<bar> / u\<bar> * u = \<bar>of_int m * u - \<bar>x\<bar>\<bar>"
  proof -
    have "\<bar>of_int m - \<bar>x\<bar> / u\<bar> * u = \<bar>(of_int m - \<bar>x\<bar> / u) * u\<bar>"
      using u by (simp add: abs_mult)
    also have "(of_int m - \<bar>x\<bar> / u) * u = of_int m * u - \<bar>x\<bar>"
      using u by (simp add: left_diff_distrib)
    finally show ?thesis .
  qed
  ultimately have e: "\<bar>of_int m * u - \<bar>x\<bar>\<bar> \<le> u / 2" by simp
  have "round_double x - x = sgn x * (of_int m * u) - sgn x * \<bar>x\<bar>"
    unfolding round_double_form [OF assms] u_def [symmetric] m_def [symmetric]
    by (simp add: sgn_mult_abs)
  also have "\<dots> = sgn x * (of_int m * u - \<bar>x\<bar>)" by (simp only: right_diff_distrib)
  finally have "\<bar>round_double x - x\<bar> = \<bar>sgn x\<bar> * \<bar>of_int m * u - \<bar>x\<bar>\<bar>"
    by (simp only: abs_mult)
  also have "\<bar>sgn x\<bar> = 1" using assms by (simp add: abs_sgn_eq)
  finally show ?thesis using e by (simp add: u_def)
qed

lemma round_double_sign:
  assumes "round_double x \<noteq> 0"
  shows "sgn (round_double x) = sgn x"
proof -
  have x: "x \<noteq> 0" using assms by (auto simp: round_double_def)
  define u where "u = (2::real) powi ulp_exponent x"
  define m where "m = round_half_even (\<bar>x\<bar> / u)"
  have u: "0 < u" unfolding u_def by (rule ulp_pos)
  have "0 \<le> \<bar>x\<bar> / u" using u by simp
  then have "of_int 0 - 1 / 2 < \<bar>x\<bar> / u" by simp
  then have m0: "0 \<le> m" unfolding m_def by (rule round_half_even_ge)
  have r: "round_double x = sgn x * (of_int m * u)"
    unfolding round_double_form [OF x] u_def m_def ..
  with assms have "m \<noteq> 0" by auto
  with m0 have "0 < (of_int m :: real) * u" using u by simp
  then have "sgn ((of_int m :: real) * u) = 1" by (rule sgn_pos)
  moreover have "sgn (sgn x * (of_int m * u)) = sgn (sgn x) * sgn (of_int m * u)"
    by (rule sgn_mult)
  ultimately show ?thesis unfolding r by simp
qed


lemma powi_add_nat: "(2::real) powi (n + int k) = 2 powi n * 2 ^ k"
proof -
  have "(2::real) powi (n + int k) = 2 powi n * 2 powi int k"
    by (rule power_int_add) simp
  then show ?thesis by (simp only: power_int_of_nat)
qed

lemma powi_less_imp_less:
  assumes "(2::real) powi m < 2 powi n"
  shows "m < n"
proof (rule ccontr)
  assume "\<not> m < n"
  then have "n \<le> m" by simp
  then have "(2::real) powi n \<le> 2 powi m" by (rule power_int_increasing) simp
  with assms show False by simp
qed

lemma ulp_exponent_normal:
  assumes "2 powi (- 1022) \<le> \<bar>x\<bar>"
  shows "ulp_exponent x = floor_log2 \<bar>x\<bar> - 52" and "- 1022 \<le> floor_log2 \<bar>x\<bar>"
proof -
  have pos: "0 < \<bar>x\<bar>" using assms ulp_pos [of "- 1022"] by linarith
  have "\<bar>x\<bar> < 2 powi (floor_log2 \<bar>x\<bar> + 1)" using pos by (rule floor_log2_bounds)
  with assms have "(2::real) powi (- 1022) < 2 powi (floor_log2 \<bar>x\<bar> + 1)" by linarith
  then have "- 1022 < floor_log2 \<bar>x\<bar> + 1" by (rule powi_less_imp_less)
  then show "- 1022 \<le> floor_log2 \<bar>x\<bar>" by simp
  then show "ulp_exponent x = floor_log2 \<bar>x\<bar> - 52" by (simp add: ulp_exponent_def)
qed

lemma ulp_exponent_subnormal:
  assumes "x \<noteq> 0" "\<bar>x\<bar> < 2 powi (- 1022)"
  shows "ulp_exponent x = - 1074"
proof -
  have pos: "0 < \<bar>x\<bar>" using assms(1) by simp
  have "2 powi floor_log2 \<bar>x\<bar> \<le> \<bar>x\<bar>" using pos by (rule floor_log2_bounds)
  with assms(2) have "(2::real) powi floor_log2 \<bar>x\<bar> < 2 powi (- 1022)" by linarith
  then have "floor_log2 \<bar>x\<bar> < - 1022" by (rule powi_less_imp_less)
  then show ?thesis by (simp add: ulp_exponent_def)
qed

lemma round_double_error_normal:
  assumes "2 powi (- 1022) \<le> \<bar>x\<bar>"
  shows "\<bar>round_double x - x\<bar> \<le> \<bar>x\<bar> / 2 ^ 53"
proof -
  have pos: "0 < \<bar>x\<bar>" using assms ulp_pos [of "- 1022"] by linarith
  then have x: "x \<noteq> 0" by simp
  define f where "f = floor_log2 \<bar>x\<bar>"
  have ue: "ulp_exponent x = f - 52" unfolding f_def using assms by (rule ulp_exponent_normal)
  have lo: "2 powi f \<le> \<bar>x\<bar>" unfolding f_def using pos by (rule floor_log2_bounds)
  have "(2::real) powi (f - 52 + int 52) = 2 powi (f - 52) * 2 ^ 52" by (rule powi_add_nat)
  then have "(2::real) powi f = 2 powi (f - 52) * 2 ^ 52" by simp
  then have "(2::real) powi (f - 52) / 2 = 2 powi f / 2 ^ 53" by simp
  also have "\<dots> \<le> \<bar>x\<bar> / 2 ^ 53" using lo by (intro divide_right_mono) simp_all
  finally have "2 powi ulp_exponent x / 2 \<le> \<bar>x\<bar> / 2 ^ 53" unfolding ue .
  with round_double_error [OF x] show ?thesis by (rule order_trans)
qed

lemma round_double_error_subnormal:
  assumes "\<bar>x\<bar> < 2 powi (- 1022)"
  shows "\<bar>round_double x - x\<bar> \<le> 2 powi (- 1075)"
proof (cases "x = 0")
  case True
  then show ?thesis using ulp_pos [of "- 1075"] by (simp add: round_double_def)
next
  case False
  have ue: "ulp_exponent x = - 1074" using False assms by (rule ulp_exponent_subnormal)
  have "(2::real) powi (- 1075 + int 1) = 2 powi (- 1075) * 2 ^ 1" by (rule powi_add_nat)
  then have "(2::real) powi (- 1074) / 2 = 2 powi (- 1075)" by simp
  with round_double_error [OF False] show ?thesis unfolding ue by simp
qed


lemma overflow_threshold: "(2 ^ 1024 - 2 ^ 970) / 2 ^ 971 = (2 ^ 53 - 1 / 2 :: real)"
  by simp

lemma round_double_overflow:
  assumes "2 ^ 1024 - 2 ^ 970 \<le> \<bar>x\<bar>"
  shows "2 ^ 1024 \<le> \<bar>round_double x\<bar>"
proof -
  have "(2::real) ^ 1023 \<le> 2 ^ 1024 - 2 ^ 970" by simp
  with assms have big: "(2::real) powi 1023 \<le> \<bar>x\<bar>" by simp
  then have pos: "0 < \<bar>x\<bar>" using ulp_pos [of 1023] by linarith
  then have x: "x \<noteq> 0" by simp
  define f where "f = floor_log2 \<bar>x\<bar>"
  have lo: "2 powi f \<le> \<bar>x\<bar>" and hi: "\<bar>x\<bar> < 2 powi (f + 1)"
    unfolding f_def using pos by (rule floor_log2_bounds)+
  from big hi have "(2::real) powi 1023 < 2 powi (f + 1)" by linarith
  then have "1023 < f + 1" by (rule powi_less_imp_less)
  then have f: "1023 \<le> f" by simp
  then have ue: "ulp_exponent x = f - 52" unfolding f_def by (simp add: ulp_exponent_def)
  define u where "u = (2::real) powi (f - 52)"
  have u: "0 < u" unfolding u_def by (rule ulp_pos)
  have "f - 52 + int 52 = f" by simp
  then have "(2::real) powi f = 2 powi (f - 52) * 2 ^ 52"
    using powi_add_nat [of "f - 52" 52] by (simp only:)
  then have pf: "(2::real) powi f = u * 2 ^ 52" by (simp only: u_def)
  define m where "m = round_half_even (\<bar>x\<bar> / u)"
  have abs_rd: "\<bar>round_double x\<bar> = of_int m * u"
    unfolding round_double_abs [OF x] ue m_def u_def ..
  show ?thesis
  proof (cases "1024 \<le> f")
    case True
    have "u * 2 ^ 52 \<le> \<bar>x\<bar>" using lo pf by simp
    then have "2 ^ 52 \<le> \<bar>x\<bar> / u" using u by (simp add: field_simps)
    moreover have "(of_int (2 ^ 52) :: real) = 2 ^ 52" by simp
    ultimately have "of_int (2 ^ 52) - 1 / 2 < \<bar>x\<bar> / u" by linarith
    then have "2 ^ 52 \<le> m" unfolding m_def by (rule round_half_even_ge)
    then have "(of_int (2 ^ 52) :: real) \<le> of_int m" by (simp only: of_int_le_iff)
    then have a: "of_int (2 ^ 52) * u \<le> of_int m * u" using u by (intro mult_right_mono) simp_all
    have b: "(2::real) powi 1024 \<le> 2 powi f" using True by (rule power_int_increasing) simp
    have "(2::real) ^ 1024 = 2 powi 1024" by simp
    also note b
    also have "2 powi f = of_int (2 ^ 52) * u" unfolding pf by simp
    also note a
    finally show ?thesis unfolding abs_rd .
  next
    case False
    with f have f1023: "f = 1023" by simp
    have u971: "u = 2 ^ 971" unfolding u_def f1023 by simp
    have "(2 ^ 1024 - 2 ^ 970) / 2 ^ 971 \<le> \<bar>x\<bar> / 2 ^ 971"
      using assms by (intro divide_right_mono) simp_all
    then have q: "2 ^ 53 - 1 / 2 \<le> \<bar>x\<bar> / u" unfolding u971 overflow_threshold .
    have "2 ^ 53 \<le> m"
    proof (cases "\<bar>x\<bar> / u = 2 ^ 53 - 1 / 2")
      case True
      then have "\<bar>x\<bar> / u = of_int (2 ^ 53) - 1 / 2" by simp
      then have "round_half_even (\<bar>x\<bar> / u) = 2 ^ 53" by (rule round_half_even_tie) simp
      then show ?thesis by (simp add: m_def)
    next
      case False
      with q have "of_int (2 ^ 53) - 1 / 2 < \<bar>x\<bar> / u" by simp
      then show ?thesis unfolding m_def by (rule round_half_even_ge)
    qed
    then have "(of_int (2 ^ 53) :: real) \<le> of_int m" by (simp only: of_int_le_iff)
    then have "(2::real) ^ 53 * 2 ^ 971 \<le> of_int m * 2 ^ 971"
      by (intro mult_right_mono) simp_all
    then show ?thesis unfolding abs_rd u971 by simp
  qed
qed

lemma round_double_no_overflow:
  assumes "\<bar>x\<bar> < 2 ^ 1024 - 2 ^ 970"
  shows "\<bar>round_double x\<bar> < 2 ^ 1024"
proof (cases "x = 0")
  case True
  then show ?thesis by (simp add: round_double_def)
next
  case x: False
  then have pos: "0 < \<bar>x\<bar>" by simp
  define f where "f = floor_log2 \<bar>x\<bar>"
  have lo: "2 powi f \<le> \<bar>x\<bar>" and hi: "\<bar>x\<bar> < 2 powi (f + 1)"
    unfolding f_def using pos by (rule floor_log2_bounds)+
  have "(2 ^ 1024 - 2 ^ 970 :: real) < 2 ^ 1024" by simp
  with assms lo have "(2::real) powi f < 2 powi 1024" by simp
  then have f: "f < 1024" by (rule powi_less_imp_less)
  define e where "e = max f (- 1022)"
  have e: "e \<le> 1023" "f \<le> e" using f by (simp_all add: e_def)
  have ue: "ulp_exponent x = e - 52" by (simp add: ulp_exponent_def e_def f_def)
  define u where "u = (2::real) powi (e - 52)"
  have u: "0 < u" unfolding u_def by (rule ulp_pos)
  have "e - 52 + int 53 = e + 1" by simp
  then have "(2::real) powi (e + 1) = 2 powi (e - 52) * 2 ^ 53"
    using powi_add_nat [of "e - 52" 53] by (simp only:)
  then have pe: "(2::real) powi (e + 1) = u * 2 ^ 53" by (simp only: u_def)
  define m where "m = round_half_even (\<bar>x\<bar> / u)"
  have abs_rd: "\<bar>round_double x\<bar> = of_int m * u"
    unfolding round_double_abs [OF x] ue m_def u_def ..
  show ?thesis
  proof (cases "e = 1023")
    case True
    have u971: "u = 2 ^ 971" unfolding u_def True by simp
    have "\<bar>x\<bar> / 2 ^ 971 < (2 ^ 1024 - 2 ^ 970) / 2 ^ 971"
      using assms by (intro divide_strict_right_mono) simp_all
    then have "\<bar>x\<bar> / u < 2 ^ 53 - 1 / 2" unfolding u971 overflow_threshold .
    moreover have "(of_int (2 ^ 53 - 1) :: real) = 2 ^ 53 - 1" by simp
    ultimately have "\<bar>x\<bar> / u < of_int (2 ^ 53 - 1) + 1 / 2" by linarith
    then have "m \<le> 2 ^ 53 - 1" unfolding m_def by (rule round_half_even_le)
    then have "(of_int m :: real) \<le> of_int (2 ^ 53 - 1)" by (simp only: of_int_le_iff)
    then have "of_int m * (2::real) ^ 971 \<le> of_int (2 ^ 53 - 1) * 2 ^ 971"
      by (intro mult_right_mono) simp_all
    also have "\<dots> < 2 ^ 1024" by simp
    finally show ?thesis unfolding abs_rd u971 .
  next
    case False
    with e have e1022: "e + 1 \<le> 1023" by simp
    have "f + 1 \<le> e + 1" using e by simp
    then have "(2::real) powi (f + 1) \<le> 2 powi (e + 1)" by (rule power_int_increasing) simp
    with hi have "\<bar>x\<bar> < u * 2 ^ 53" unfolding pe by linarith
    then have "\<bar>x\<bar> / u < 2 ^ 53" using u by (simp add: field_simps)
    moreover have "(of_int (2 ^ 53) :: real) = 2 ^ 53" by simp
    ultimately have "\<bar>x\<bar> / u < of_int (2 ^ 53) + 1 / 2" by linarith
    then have "m \<le> 2 ^ 53" unfolding m_def by (rule round_half_even_le)
    then have "(of_int m :: real) \<le> of_int (2 ^ 53)" by (simp only: of_int_le_iff)
    then have "of_int m * u \<le> of_int (2 ^ 53) * u" using u by (intro mult_right_mono) simp_all
    also have "\<dots> = 2 powi (e + 1)" unfolding pe by simp
    also have "\<dots> \<le> 2 powi 1023" using e1022 by (rule power_int_increasing) simp
    also have "\<dots> < 2 ^ 1024" by simp
    finally show ?thesis unfolding abs_rd .
  qed
qed

lemma binary64_overflow:
  assumes "2 ^ 1024 - 2 ^ 970 \<le> \<bar>x\<bar>"
  shows "binary64 x = (if 0 < x then PosInf else NegInf)"
  using round_double_overflow [OF assms] by (simp add: binary64_def Let_def)

lemma binary64_finite:
  assumes "\<bar>x\<bar> < 2 ^ 1024 - 2 ^ 970"
  shows "binary64 x = Finite (round_double x)"
  using round_double_no_overflow [OF assms] by (simp add: binary64_def Let_def)

subsection \<open>Division\<close>

text \<open>
  Claim C3 says that \<open>divide\<close> returns the quotient \<open>a / b\<close> for every divisor that is
  not zero. The quotient of two doubles can lie beyond the range of doubles, and \<^verbatim>\<open>/\<close>
  then returns an infinity without raising: \<open>2 ^ 1000\<close> divided by \<open>2 ^ -1000\<close> is
  \<open>2 ^ 2000\<close>, and the reply is \<^verbatim>\<open>Result: inf\<close>.
\<close>

theorem divide_overflow:
  "divide_tool (2 ^ 1000) (1 / 2 ^ 1000) = Inr (Result PosInf) \<and>
   divide_tool (2 ^ 1000) (1 / 2 ^ 1000) \<noteq> Inr (Result (Finite (2 ^ 1000 / (1 / 2 ^ 1000))))"
proof -
  have "2 ^ 1024 - 2 ^ 970 \<le> \<bar>2 ^ 1000 / (1 / 2 ^ 1000) :: real\<bar>" by simp
  then have "binary64 (2 ^ 1000 / (1 / 2 ^ 1000)) = PosInf"
    using binary64_overflow [of "2 ^ 1000 / (1 / 2 ^ 1000)"] by simp
  then show ?thesis by (simp add: divide_tool_def float_div_def float_truediv_def)
qed

text \<open>
  Claim C3, amended. For every \<open>a\<close>, \<open>divide\<close> with a zero divisor returns its error
  message and computes no quotient; it returns an error message for no other divisor
  and raises nothing. For a divisor that is not zero it returns the quotient rounded to
  binary64:
  \<^item> a quotient of magnitude in \<open>[2 ^ -1022, 2 ^ 1024 - 2 ^ 970)\<close> is returned with a
    relative error of at most \<open>2 ^ -53\<close>;
  \<^item> a quotient of magnitude \<open>2 ^ 1024 - 2 ^ 970\<close> or more is returned as the infinity of
    its sign;
  \<^item> a quotient of magnitude below \<open>2 ^ -1022\<close> is returned with an absolute error of at
    most \<open>2 ^ -1075\<close>, so that a quotient small enough is returned as zero.
\<close>

theorem divide_binary64:
  "divide_tool a 0 = Inr (Error ''Division by zero is not allowed'') \<and>
   (\<exists>msg. divide_tool a b = Inr (Error msg)) = (b = 0) \<and>
   (b \<noteq> 0 \<longrightarrow> divide_tool a b = Inr (Result (binary64 (a / b)))) \<and>
   (b \<noteq> 0 \<and> 2 powi (- 1022) \<le> \<bar>a / b\<bar> \<and> \<bar>a / b\<bar> < 2 ^ 1024 - 2 ^ 970 \<longrightarrow>
      (\<exists>q. divide_tool a b = Inr (Result (Finite q)) \<and> \<bar>q - a / b\<bar> \<le> \<bar>a / b\<bar> / 2 ^ 53)) \<and>
   (b \<noteq> 0 \<and> 2 ^ 1024 - 2 ^ 970 \<le> \<bar>a / b\<bar> \<longrightarrow>
      divide_tool a b = Inr (Result (if 0 < a / b then PosInf else NegInf))) \<and>
   (b \<noteq> 0 \<and> \<bar>a / b\<bar> < 2 powi (- 1022) \<longrightarrow>
      (\<exists>q. divide_tool a b = Inr (Result (Finite q)) \<and> \<bar>q - a / b\<bar> \<le> 2 powi (- 1075)))"
proof -
  have d: "divide_tool a b = Inr (Result (binary64 (a / b)))" if "b \<noteq> 0"
    using that by (simp add: divide_tool_def float_div_def float_truediv_def)
  have z: "divide_tool a 0 = Inr (Error ''Division by zero is not allowed'')"
    by (simp add: divide_tool_def)
  have e: "(\<exists>msg. divide_tool a b = Inr (Error msg)) = (b = 0)"
  proof (cases "b = 0")
    case True
    then show ?thesis by (simp add: divide_tool_def)
  next
    case False
    then show ?thesis by (simp add: d)
  qed
  have n: "\<exists>q. divide_tool a b = Inr (Result (Finite q)) \<and> \<bar>q - a / b\<bar> \<le> \<bar>a / b\<bar> / 2 ^ 53"
    if "b \<noteq> 0" "2 powi (- 1022) \<le> \<bar>a / b\<bar>" "\<bar>a / b\<bar> < 2 ^ 1024 - 2 ^ 970"
    using d [OF that(1)] binary64_finite [OF that(3)] round_double_error_normal [OF that(2)]
    by simp
  have o: "divide_tool a b = Inr (Result (if 0 < a / b then PosInf else NegInf))"
    if "b \<noteq> 0" "2 ^ 1024 - 2 ^ 970 \<le> \<bar>a / b\<bar>"
    using d [OF that(1)] binary64_overflow [OF that(2)] by simp
  have s: "\<exists>q. divide_tool a b = Inr (Result (Finite q)) \<and> \<bar>q - a / b\<bar> \<le> 2 powi (- 1075)"
    if "b \<noteq> 0" "\<bar>a / b\<bar> < 2 powi (- 1022)"
  proof -
    have "(2::real) powi (- 1022) < 2 ^ 1024 - 2 ^ 970" by simp
    with that(2) have "\<bar>a / b\<bar> < 2 ^ 1024 - 2 ^ 970" by linarith
    then show ?thesis
      using d [OF that(1)] binary64_finite round_double_error_subnormal [OF that(2)] by simp
  qed
  show ?thesis using z e d n o s by blast
qed

theorem divide_binary64_witness:
  "(2::real) \<noteq> 0 \<and> 2 powi (- 1022) \<le> \<bar>1 / 2 :: real\<bar> \<and> \<bar>1 / 2 :: real\<bar> < 2 ^ 1024 - 2 ^ 970 \<and>
   (\<exists>q. divide_tool 1 2 = Inr (Result (Finite q)) \<and> \<bar>q - 1 / 2\<bar> \<le> \<bar>1 / 2\<bar> / 2 ^ 53) \<and>
   (1 / 2 ^ 1000 :: real) \<noteq> 0 \<and> 2 ^ 1024 - 2 ^ 970 \<le> \<bar>2 ^ 1000 / (1 / 2 ^ 1000) :: real\<bar> \<and>
   divide_tool (2 ^ 1000) (1 / 2 ^ 1000) = Inr (Result PosInf) \<and>
   \<bar>(1 / 2 ^ 1074) / 2 :: real\<bar> < 2 powi (- 1022) \<and>
   (\<exists>q. divide_tool (1 / 2 ^ 1074) 2 = Inr (Result (Finite q)) \<and>
        \<bar>q - (1 / 2 ^ 1074) / 2\<bar> \<le> 2 powi (- 1075))"
proof -
  have h1: "(2::real) \<noteq> 0 \<and> 2 powi (- 1022) \<le> \<bar>1 / 2 :: real\<bar> \<and> \<bar>1 / 2 :: real\<bar> < 2 ^ 1024 - 2 ^ 970"
    by simp
  have h2: "(1 / 2 ^ 1000 :: real) \<noteq> 0 \<and> 2 ^ 1024 - 2 ^ 970 \<le> \<bar>2 ^ 1000 / (1 / 2 ^ 1000) :: real\<bar>"
    by simp
  have h3: "(2::real) \<noteq> 0 \<and> \<bar>(1 / 2 ^ 1074) / 2 :: real\<bar> < 2 powi (- 1022)"
    by simp
  have p: "(0::real) < 2 ^ 1000 / (1 / 2 ^ 1000)" by simp
  from divide_binary64 [of 1 2] h1
  have c1: "\<exists>q. divide_tool 1 2 = Inr (Result (Finite q)) \<and> \<bar>q - 1 / 2\<bar> \<le> \<bar>1 / 2\<bar> / 2 ^ 53"
    by blast
  from divide_binary64 [of "2 ^ 1000" "1 / 2 ^ 1000"] h2
  have "divide_tool (2 ^ 1000) (1 / 2 ^ 1000) =
      Inr (Result (if (0::real) < 2 ^ 1000 / (1 / 2 ^ 1000) then PosInf else NegInf))"
    by blast
  with p have c2: "divide_tool (2 ^ 1000) (1 / 2 ^ 1000) = Inr (Result PosInf)"
    by (simp only: if_True)
  from divide_binary64 [of "1 / 2 ^ 1074" 2] h3
  have c3: "\<exists>q. divide_tool (1 / 2 ^ 1074) 2 = Inr (Result (Finite q)) \<and>
        \<bar>q - (1 / 2 ^ 1074) / 2\<bar> \<le> 2 powi (- 1075)"
    by blast
  show ?thesis using h1 h2 h3 c1 c2 c3 by blast
qed

subsection \<open>Power\<close>

text \<open>
  Claim C2 says that \<open>power\<close> returns a result for every base and exponent, the zero base
  with a negative exponent included. The code applies \<^verbatim>\<open>**\<close> without a guard, and
  \<^verbatim>\<open>0.0 ** -1.0\<close> raises \<open>ZeroDivisionError\<close>: the exception leaves the tool.
\<close>

theorem power_zero_negative_raises:
  "power_tool 0 (- 1) = Inl ZeroDivisionError"
  by (simp add: power_tool_def float_pow_def)

subsection \<open>Logarithm\<close>




subsection \<open>Modulo\<close>

lemma fmod_mult:
  assumes "b \<noteq> 0"
  shows "fmod (b * q) b = b * (q - of_int (trunc q))"
  using assms by (simp add: fmod_def right_diff_distrib)

lemma trunc_cases:
  "trunc q = (if 0 \<le> q \<or> q = of_int \<lfloor>q\<rfloor> then \<lfloor>q\<rfloor> else \<lfloor>q\<rfloor> + 1)"
  by (simp add: trunc_def ceiling_altdef)

lemma float_rem_mult:
  assumes "b \<noteq> 0"
  shows "float_rem (b * q) b =
    Inr (if q < 0 \<and> b * (q - of_int \<lfloor>q\<rfloor>) \<noteq> 0
         then round_double (b * (q - of_int \<lfloor>q\<rfloor>))
         else b * (q - of_int \<lfloor>q\<rfloor>))"
proof -
  define f where "f = q - of_int \<lfloor>q\<rfloor>"
  have f: "0 \<le> f" "f < 1" unfolding f_def by linarith+
  show ?thesis
  proof (cases "0 \<le> q \<or> q = of_int \<lfloor>q\<rfloor>")
    case True
    then have m: "fmod (b * q) b = b * f"
      by (simp only: fmod_mult [OF assms] trunc_cases f_def if_True)
    have same: "(b < 0) = (b * f < 0)" if "b * f \<noteq> 0"
    proof -
      from that have "f \<noteq> 0" by auto
      with f have "0 < f" by simp
      then show ?thesis using assms by (auto simp: mult_less_0_iff)
    qed
    have unrounded: "\<not> (q < 0 \<and> b * f \<noteq> 0)"
    proof
      assume a: "q < 0 \<and> b * f \<noteq> 0"
      with True have "q = of_int \<lfloor>q\<rfloor>" by simp
      then have "f = 0" by (simp add: f_def)
      with a show False by simp
    qed
    show ?thesis
      unfolding float_rem_def Let_def m f_def [symmetric] using assms same unrounded by auto
  next
    case False
    then have m: "fmod (b * q) b = b * (f - 1)"
      by (simp add: fmod_mult [OF assms] trunc_cases f_def)
    from False have fne: "f \<noteq> 0" by (auto simp: f_def)
    have neg: "f - 1 < 0" using f by simp
    have ne: "b * (f - 1) \<noteq> 0" using assms neg by simp
    have "(b * (f - 1) < 0) = (0 < b)"
      using neg assms by (auto simp: mult_less_0_iff)
    then have d: "(b < 0) \<noteq> (b * (f - 1) < 0)" using assms by auto
    have sum: "b * (f - 1) + b = b * f" by (simp add: right_diff_distrib)
    have rounded: "q < 0 \<and> b * f \<noteq> 0" using False fne assms by simp
    show ?thesis
      unfolding float_rem_def Let_def m f_def [symmetric] sum using assms ne d rounded by simp
  qed
qed

lemma float_rem_floor:
  assumes "b \<noteq> 0"
  shows "float_rem a b =
    Inr (if a / b < 0 \<and> floored_remainder a b \<noteq> 0
         then round_double (floored_remainder a b)
         else floored_remainder a b)"
proof -
  have ba: "b * (a / b) = a" using assms by simp
  have "b * (a / b - of_int \<lfloor>a / b\<rfloor>) = floored_remainder a b"
    unfolding floored_remainder_def right_diff_distrib ba ..
  then show ?thesis
    using float_rem_mult [OF assms, of "a / b"] unfolding ba by simp
qed

lemma floored_remainder_sign:
  assumes "b \<noteq> 0" "floored_remainder a b \<noteq> 0"
  shows "sgn (floored_remainder a b) = sgn b"
proof -
  define f where "f = a / b - of_int \<lfloor>a / b\<rfloor>"
  have f: "0 \<le> f" unfolding f_def by linarith
  have "b * (a / b) = a" using assms by simp
  then have eq: "floored_remainder a b = b * f"
    unfolding f_def floored_remainder_def by (simp add: right_diff_distrib)
  with assms(2) have "f \<noteq> 0" by auto
  with f have "0 < f" by simp
  then show ?thesis unfolding eq by (simp add: sgn_mult)
qed

lemma round_double_tolerance:
  "\<bar>round_double x - x\<bar> \<le> max (\<bar>x\<bar> / 2 ^ 53) (2 powi (- 1075))"
proof (cases "2 powi (- 1022) \<le> \<bar>x\<bar>")
  case True
  then have "\<bar>round_double x - x\<bar> \<le> \<bar>x\<bar> / 2 ^ 53" by (rule round_double_error_normal)
  then show ?thesis by (simp only: le_max_iff_disj) blast
next
  case False
  then have "\<bar>x\<bar> < 2 powi (- 1022)" by simp
  then have "\<bar>round_double x - x\<bar> \<le> 2 powi (- 1075)" by (rule round_double_error_subnormal)
  then show ?thesis by (simp only: le_max_iff_disj) blast
qed

text \<open>
  Claim C6 says that for every \<open>b\<close> that is not zero \<open>modulo\<close> returns the remainder of
  floored division, \<open>r = a - b * floor(a / b)\<close>. When the signs of \<open>a\<close> and \<open>b\<close> differ the
  code adds \<open>b\<close> to the result of \<open>fmod\<close> in double arithmetic, and the sum is rounded:
  for \<open>a = - 2 ^ -70\<close> and \<open>b = 3\<close> the remainder \<open>3 - 2 ^ -70\<close> is rounded to 3, and the
  reply is the divisor itself.
\<close>

theorem modulo_rounds_once:
  "modulo_tool (- (1 / 2 ^ 70)) 3 = Inr (Result 3) \<and>
   floored_remainder (- (1 / 2 ^ 70)) 3 \<noteq> 3"
proof
  show "modulo_tool (- (1 / 2 ^ 70)) 3 = Inr (Result 3)"
    by code_simp
  show "floored_remainder (- (1 / 2 ^ 70)) 3 \<noteq> 3"
    by code_simp
qed

text \<open>
  Claim C6, amended. \<open>modulo\<close> returns an error message exactly when \<open>b = 0\<close>. For every
  \<open>a\<close> and every \<open>b\<close> that is not zero it returns the remainder of floored division,
  \<open>a - b * floor(a / b)\<close>, exactly when \<open>a / b\<close> is not negative or the remainder is zero,
  and rounded to the nearest double otherwise; the reply differs from the remainder by
  at most the larger of \<open>2 ^ -53\<close> times its magnitude and \<open>2 ^ -1075\<close>, and a reply that
  is not zero has the sign of \<open>b\<close>.
\<close>

theorem modulo_floored_rounded:
  "(\<exists>msg. modulo_tool a b = Inr (Error msg)) = (b = 0) \<and>
   (b \<noteq> 0 \<longrightarrow>
      (\<exists>r. modulo_tool a b = Inr (Result r) \<and>
           r = (if a / b < 0 \<and> floored_remainder a b \<noteq> 0
                then round_double (floored_remainder a b)
                else floored_remainder a b) \<and>
           \<bar>r - floored_remainder a b\<bar>
             \<le> max (\<bar>floored_remainder a b\<bar> / 2 ^ 53) (2 powi (- 1075)) \<and>
           (r \<noteq> 0 \<longrightarrow> sgn r = sgn b)))"
proof (cases "b = 0")
  case True
  then show ?thesis by (simp add: modulo_tool_def)
next
  case False
  define e where "e = floored_remainder a b"
  define r where "r = (if a / b < 0 \<and> e \<noteq> 0 then round_double e else e)"
  have m: "modulo_tool a b = Inr (Result r)"
    using False by (simp add: modulo_tool_def float_rem_floor r_def e_def)
  have pos: "(0::real) \<le> max (\<bar>e\<bar> / 2 ^ 53) (2 powi (- 1075))"
    by (simp add: le_max_iff_disj)
  have tol: "\<bar>r - e\<bar> \<le> max (\<bar>e\<bar> / 2 ^ 53) (2 powi (- 1075))"
    unfolding r_def using round_double_tolerance [of e] pos by simp
  have sign: "sgn r = sgn b" if "r \<noteq> 0"
  proof (cases "a / b < 0 \<and> e \<noteq> 0")
    case True
    then have r: "r = round_double e" by (simp add: r_def)
    with that have "sgn r = sgn e" by (simp add: round_double_sign)
    also have "\<dots> = sgn b"
      unfolding e_def using False True by (intro floored_remainder_sign) (simp_all add: e_def)
    finally show ?thesis .
  next
    case no: False
    then have r: "r = e" unfolding r_def by (simp only: if_False)
    with that show ?thesis
      unfolding r e_def using False by (intro floored_remainder_sign) (simp_all add: e_def)
  qed
  show ?thesis
    using False m tol sign unfolding r_def e_def by simp
qed

theorem modulo_floored_rounded_witness:
  "(3::real) \<noteq> 0 \<and> modulo_tool (- 7) 3 = Inr (Result 2) \<and> (2::real) \<noteq> 0 \<and>
   sgn (2::real) = sgn 3"
proof -
  have e: "floored_remainder (- 7) 3 = 2" by code_simp
  have r: "round_double 2 = 2" by code_simp
  show ?thesis
    using modulo_floored_rounded [of "- 7" 3] unfolding e r by simp
qed


subsection \<open>Primality: the bound of the loop\<close>

lemma float_of_int_overflow_aux:
  fixes m :: int and K :: nat
  assumes "2 ^ K \<le> m" "53 \<le> K"
  defines "b \<equiv> bit_length m"
  defines "sh \<equiv> b - 53"
  shows "K < b" "2 ^ K \<le> (m div 2 ^ sh) * 2 ^ sh"
proof -
  have mpos: "0 < m"
  proof -
    have "(0::int) < 2 ^ K" by simp
    with assms(1) show ?thesis by linarith
  qed
  have bd: "2 ^ b \<le> 2 * m" "m < 2 ^ b"
    using bit_length_bounds [OF mpos] by (simp_all add: b_def)
  have "(2::int) ^ K < 2 ^ b" using assms(1) bd(2) by linarith
  then show big: "K < b" by (rule power_less_imp_less_exp [rotated]) simp
  have b_eq: "b = Suc (52 + sh)" using big assms(2) by (simp add: sh_def)
  have "(2::int) * (2 ^ 52 * 2 ^ sh) \<le> 2 * m"
    using bd(1) unfolding b_eq by (simp only: power_Suc power_add)
  then have "(2::int) ^ 52 * 2 ^ sh \<le> m" by linarith
  then have "((2::int) ^ 52 * 2 ^ sh) div 2 ^ sh \<le> m div 2 ^ sh"
    by (rule zdiv_mono1) simp
  then have q: "(2::int) ^ 52 \<le> m div 2 ^ sh"
    by (simp only: nonzero_mult_div_cancel_right power_not_zero zero_neq_numeral not_False_eq_True)
  have "K \<le> 52 + sh" using big unfolding b_eq by simp
  then have "(2::int) ^ K \<le> 2 ^ (52 + sh)" by (rule power_increasing) simp
  also have "\<dots> = 2 ^ 52 * 2 ^ sh" by (rule power_add)
  also have "\<dots> \<le> (m div 2 ^ sh) * 2 ^ sh"
    using q by (rule mult_right_mono) simp
  finally show "2 ^ K \<le> (m div 2 ^ sh) * 2 ^ sh" .
qed


lemma float_of_int_overflow:
  assumes "2 ^ 1024 \<le> \<bar>n\<bar>"
  shows "float_of_int n = Inl OverflowError"
proof -
  define m where "m = \<bar>n\<bar>"
  define sh where "sh = bit_length m - 53"
  have m: "2 ^ 1024 \<le> m" using assms by (simp only: m_def)
  have big: "1024 < bit_length m"
    and v1: "2 ^ 1024 \<le> (m div 2 ^ sh) * 2 ^ sh"
    unfolding sh_def using float_of_int_overflow_aux [OF m] by simp_all
  have "(0::int) \<le> 2 ^ sh" by simp
  then have v2: "2 ^ 1024 \<le> (m div 2 ^ sh + 1) * 2 ^ sh"
    using v1 by (simp only: distrib_right mult_1)
  have nle: "\<not> bit_length m \<le> 53" using big by simp
  show ?thesis
    unfolding float_of_int_def Let_def m_def [symmetric] sh_def [symmetric]
    using nle v1 v2 by (simp only: if_False if_True split: if_split) blast
qed

lemma is_prime_overflow:
  assumes "odd n" "2 ^ 1024 \<le> n"
  shows "is_prime n = Inl OverflowError"
proof -
  have "(2::int) < 2 ^ 1024" by simp
  with assms(2) have "2 < n" by linarith
  moreover have "n mod 2 \<noteq> 0" using assms(1) by presburger
  moreover have "float_of_int n = Inl OverflowError"
    using assms(2) by (intro float_of_int_overflow) linarith
  ultimately show ?thesis by (simp add: is_prime_def int_mod_def)
qed

lemma isqrt_bounds:
  "0 \<le> n \<Longrightarrow> 0 \<le> isqrt n \<and> isqrt n * isqrt n \<le> n \<and> n < (isqrt n + 1) * (isqrt n + 1)"
proof (induction n rule: isqrt.induct)
  case (1 n)
  show ?case
  proof (cases "n < 2")
    case True
    with "1.prems" have "n = 0 \<or> n = 1" by linarith
    then show ?thesis by (auto simp: isqrt.simps [of 0] isqrt.simps [of 1])
  next
    case False
    define s where "s = isqrt (n div 4)"
    define r where "r = 2 * s"
    have "0 \<le> n div 4" using "1.prems" by simp
    with "1.IH" False have ih: "0 \<le> s" "s * s \<le> n div 4" "n div 4 < (s + 1) * (s + 1)"
      by (simp_all add: s_def)
    have lo: "r * r \<le> n"
    proof -
      have "4 * (s * s) \<le> 4 * (n div 4)" using ih(2) by simp
      also have "\<dots> \<le> n" by presburger
      finally show ?thesis by (simp add: r_def)
    qed
    have hi: "n < (r + 2) * (r + 2)"
    proof -
      have "n div 4 + 1 \<le> (s + 1) * (s + 1)" using ih(3) by simp
      then have "4 * (n div 4 + 1) \<le> 4 * ((s + 1) * (s + 1))" by simp
      moreover have "n < 4 * (n div 4 + 1)" by presburger
      ultimately have "n < 4 * ((s + 1) * (s + 1))" by linarith
      also have "\<dots> = (r + 2) * (r + 2)" by (simp add: r_def algebra_simps)
      finally show ?thesis .
    qed
    have eq: "isqrt n = (if (r + 1) * (r + 1) \<le> n then r + 1 else r)"
      using False by (subst isqrt.simps) (simp add: Let_def r_def s_def)
    have rpos: "0 \<le> r" using ih(1) by (simp add: r_def)
    show ?thesis
    proof (cases "(r + 1) * (r + 1) \<le> n")
      case True
      then show ?thesis using eq rpos hi by (simp add: algebra_simps)
    next
      case False
      then show ?thesis using eq rpos lo by simp
    qed
  qed
qed

lemma isqrt_unique:
  assumes "0 \<le> s" "s * s \<le> n" "n < (s + 1) * (s + 1)"
  shows "isqrt n = s"
proof -
  have n: "0 \<le> n" using assms(1,2) by (smt (verit) zero_le_square)
  note b = isqrt_bounds [OF n]
  define t where "t = isqrt n"
  have t: "0 \<le> t" "t * t \<le> n" "n < (t + 1) * (t + 1)" using b by (simp_all add: t_def)
  have "\<not> t < s"
  proof
    assume "t < s"
    then have "t + 1 \<le> s" by simp
    then have "(t + 1) * (t + 1) \<le> s * s" using t(1) by (intro mult_mono) simp_all
    with t(3) assms(2) show False by linarith
  qed
  moreover have "\<not> s < t"
  proof
    assume "s < t"
    then have "s + 1 \<le> t" by simp
    then have "(s + 1) * (s + 1) \<le> t * t" using assms(1) by (intro mult_mono) simp_all
    with assms(3) t(2) show False by linarith
  qed
  ultimately show ?thesis by (simp add: t_def)
qed


lemma square_less_imp_less:
  fixes a b :: int
  assumes "a * a < b * b" "0 \<le> b"
  shows "a < b"
proof (rule ccontr)
  assume "\<not> a < b"
  then have "b \<le> a" by simp
  then have "b * b \<le> a * a" using assms(2) by (intro mult_mono) simp_all
  with assms(1) show False by simp
qed

lemma square_mult_square: "(a * a) * (p * p) = (a * p) * (a * (p::int))"
  by (simp only: mult_ac)

lemma rounded_root_floor:
  fixes n s m P :: int
  assumes s: "0 \<le> s" "s * s \<le> n" "n < (s + 1) * (s + 1)"
    and m: "0 \<le> m" "m * m \<le> n * (P * P)" "n * (P * P) < (m + 1) * (m + 1)"
    and P: "s + 1 \<le> P"
  shows "s * P \<le> m" and "m < (s + 1) * P"
    and "m * m + m < n * (P * P) \<Longrightarrow> m + 1 < (s + 1) * P"
proof -
  have Ppos: "0 < P" using s(1) P by simp
  then have PP: "0 < P * P" by simp
  define T where "T = (s + 1) * P"
  define Y where "Y = n * (P * P)"
  define Q where "Q = P * P"
  define M where "M = m * m"
  define TT where "TT = T * T"
  have Tpos: "0 \<le> T" using s(1) Ppos by (simp add: T_def)
  have "(s * s) * (P * P) \<le> n * (P * P)"
    using s(2) PP by (intro mult_right_mono) simp_all
  moreover have "(s * s) * (P * P) = (s * P) * (s * P)" by (rule square_mult_square)
  ultimately have "(s * P) * (s * P) \<le> n * (P * P)" by (simp only:)
  from this m(3) have "(s * P) * (s * P) < (m + 1) * (m + 1)" by (rule order_le_less_trans)
  then have "s * P < m + 1" by (rule square_less_imp_less) (use m(1) in simp)
  then show "s * P \<le> m" by simp
  have "n + 1 \<le> (s + 1) * (s + 1)" using s(3) by simp
  then have "(n + 1) * (P * P) \<le> ((s + 1) * (s + 1)) * (P * P)"
    using PP by (intro mult_right_mono) simp_all
  moreover have "(n + 1) * (P * P) = n * (P * P) + P * P" by (simp only: distrib_right mult_1)
  moreover have "((s + 1) * (s + 1)) * (P * P) = T * T"
  proof -
    have "((s + 1) * (s + 1)) * (P * P) = ((s + 1) * P) * ((s + 1) * P)"
      by (rule square_mult_square)
    then show ?thesis by (simp only: T_def)
  qed
  ultimately have up: "Y + Q \<le> TT" by (simp only: Y_def Q_def TT_def)
  have "M \<le> Y" "0 < Q" using m(2) PP by (simp_all only: M_def Y_def Q_def)
  with up have "M < TT" by linarith
  then have "m * m < T * T" by (simp only: M_def TT_def)
  then have mT: "m < T" using Tpos by (rule square_less_imp_less)
  then show "m < (s + 1) * P" by (simp only: T_def)
  show "m + 1 < (s + 1) * P" if r: "m * m + m < n * (P * P)"
  proof (rule ccontr)
    assume "\<not> m + 1 < (s + 1) * P"
    with mT have T: "T = m + 1" unfolding T_def by linarith
    have "(m + 1) * (m + 1) = m * m + m + (m + 1)"
      by (simp only: distrib_left distrib_right mult_1 mult_1_right add.assoc)
    then have "TT = M + m + T" by (simp only: T TT_def M_def)
    moreover have "M + m < Y" using r by (simp only: M_def Y_def)
    ultimately have "Q < T" using up by linarith
    moreover have "T \<le> P * P" unfolding T_def using P Ppos by (intro mult_right_mono) simp_all
    ultimately show False by (simp add: Q_def)
  qed
qed

lemma mid_compare:
  fixes a Y :: int
  shows "(of_int a + 1 / 4 < (of_int Y :: real)) = (a < Y)"
    and "(of_int a + 1 / 4 :: real) \<noteq> of_int Y"
proof -
  show "(of_int a + 1 / 4 < (of_int Y :: real)) = (a < Y)"
  proof
    assume "of_int a + 1 / 4 < (of_int Y :: real)"
    then have "(of_int a :: real) < of_int Y" by linarith
    then show "a < Y" by simp
  next
    assume "a < Y"
    then have "a + 1 \<le> Y" by simp
    then have "(of_int (a + 1) :: real) \<le> of_int Y" by (simp only: of_int_le_iff)
    then show "of_int a + 1 / 4 < (of_int Y :: real)" by simp
  qed
  show "(of_int a + 1 / 4 :: real) \<noteq> of_int Y"
  proof
    assume "(of_int a + 1 / 4 :: real) = of_int Y"
    then have "(of_int (4 * (Y - a)) :: real) = of_int 1" by simp
    then have "4 * (Y - a) = 1" by (simp only: of_int_eq_iff)
    then show False by presburger
  qed
qed

lemma math_sqrt_int_exact:
  assumes "1 \<le> n" "n < 2 ^ 52"
  shows "\<exists>r. math_sqrt (of_int n) = Inr r \<and> int_of_float r = isqrt n"
proof -
  define b where "b = bit_length n"
  have npos: "0 < n" using assms(1) by simp
  have bd: "2 ^ b \<le> 2 * n" "n < 2 ^ b"
    using bit_length_bounds [OF npos] by (simp_all add: b_def)
  have "(2::int) ^ b < 2 ^ 53" using bd(1) assms(2) by simp
  then have b53: "b < 53" by (rule power_less_imp_less_exp [rotated]) simp
  define e where "e = (int b - 1) div 2"
  have e: "e \<le> 25" using b53 unfolding e_def by linarith
  have fl: "floor_log2 (of_int n) = int b - 1"
    using assms(1) by (simp add: floor_log2_def b_def)
  define k where "k = nat (52 - e)"
  define P where "P = (2::int) ^ k"
  have k: "27 \<le> k" using e by (simp add: k_def)
  have Ppos: "0 < P" by (simp add: P_def)
  have u: "(2::real) powi (e - 52) = 1 / of_int P"
    using e by (simp add: power_int_def P_def k_def inverse_eq_divide power_one_over)
  define Y where "Y = n * (P * P)"
  have y: "of_int n / ((1 / of_int P) * (1 / of_int P)) = (of_int Y :: real)"
    using Ppos by (simp add: Y_def)
  define m where "m = isqrt Y"
  have Ypos: "0 \<le> Y" using npos Ppos by (simp add: Y_def)
  have m: "0 \<le> m" "m * m \<le> n * (P * P)" "n * (P * P) < (m + 1) * (m + 1)"
    using isqrt_bounds [OF Ypos] by (simp_all add: m_def Y_def)
  define s where "s = isqrt n"
  have n0: "0 \<le> n" using npos by simp
  have s: "0 \<le> s" "s * s \<le> n" "n < (s + 1) * (s + 1)"
    using isqrt_bounds [OF n0] by (simp_all add: s_def)
  have "s * s < 2 ^ 26 * 2 ^ 26" using s(2) assms(2) by simp
  then have "s < 2 ^ 26" by (rule square_less_imp_less) simp
  moreover have "(2::int) ^ 27 \<le> 2 ^ k" using k by (rule power_increasing) simp
  ultimately have sP: "s + 1 \<le> P" by (simp add: P_def)
  note rr = rounded_root_floor [OF s m sP]
  define m' where "m' = (if m * m + m < Y then m + 1 else m)"
  have y': "real_of_int n * (real_of_int P * real_of_int P) = of_int Y"
    by (simp add: Y_def)
  have mc: "(real_of_int m * real_of_int m + real_of_int m + 1 / 4 < of_int Y) = (m * m + m < Y)"
    "real_of_int m * real_of_int m + real_of_int m + 1 / 4 \<noteq> of_int Y"
    using mid_compare [of "m * m + m" Y] by simp_all
  have sq: "math_sqrt (of_int n) = Inr (of_int m' / of_int P)"
    using npos
    by (simp add: math_sqrt_def Let_def fl e_def [symmetric] u y' m_def [symmetric] mc m'_def)
  have lo: "s * P \<le> m'" using rr(1) by (simp add: m'_def)
  have hi: "m' < (s + 1) * P" using rr(2) rr(3) by (simp add: m'_def Y_def)
  have m'pos: "0 \<le> m'" using m(1) by (simp add: m'_def)
  have "m' div P = s"
  proof (rule int_div_pos_eq [of _ _ _ "m' - s * P"])
    show "m' = P * s + (m' - s * P)" by (simp add: mult.commute)
    show "0 \<le> m' - s * P" using lo by simp
    show "m' - s * P < P" using hi by (simp add: distrib_right)
  qed
  moreover have "int_of_float (of_int m' / of_int P) = m' div P"
    using m'pos Ppos by (simp add: int_of_float_def trunc_def floor_divide_of_int_eq)
  ultimately show ?thesis using sq by (simp add: s_def)
qed


lemma isqrt_floor_sqrt:
  assumes "0 \<le> n"
  shows "isqrt n = \<lfloor>sqrt (of_int n)\<rfloor>"
proof -
  note b = isqrt_bounds [OF assms]
  define s where "s = isqrt n"
  have s: "0 \<le> s" "s * s \<le> n" "n < (s + 1) * (s + 1)" using b by (simp_all add: s_def)
  have "(of_int s)\<^sup>2 \<le> (of_int n :: real)"
    using s(2) by (metis of_int_le_iff of_int_mult power2_eq_square)
  then have lo: "of_int s \<le> sqrt (of_int n)"
    using s(1) by (simp add: real_le_rsqrt)
  have "(of_int n :: real) < (of_int (s + 1))\<^sup>2"
    using s(3) by (metis of_int_less_iff of_int_mult power2_eq_square)
  then have hi: "sqrt (of_int n) < of_int (s + 1)"
    using s(1) by (intro real_less_lsqrt) simp_all
  have "\<lfloor>sqrt (of_int n)\<rfloor> = s"
    using lo hi by (intro floor_unique) simp_all
  then show ?thesis by (simp add: s_def)
qed

lemma filter_odd_upto:
  assumes "odd i"
  shows "filter odd [i..s] = (if i \<le> s then i # filter odd [i + 2..s] else [])"
proof (cases "i \<le> s")
  case False
  then show ?thesis by simp
next
  case True
  then have "[i..s] = i # [i + 1..s]" by (simp add: upto_rec1)
  moreover have "filter odd [i + 1..s] = filter odd [i + 2..s]"
  proof (cases "i + 1 \<le> s")
    case True
    then have "[i + 1..s] = (i + 1) # [i + 2..s]" by (simp add: upto_rec1 add.commute)
    then show ?thesis using assms by simp
  next
    case False
    then show ?thesis by simp
  qed
  ultimately show ?thesis using assms True by simp
qed

lemma trial_division_find:
  "odd i \<Longrightarrow> 0 < i \<Longrightarrow> stop = s + 1 \<Longrightarrow>
   trial_division n i stop =
     Inr (case find (\<lambda>j. n mod j = 0) (filter odd [i..s]) of
            None \<Rightarrow> Is_Prime n
          | Some d \<Rightarrow> Divisible_By n d)"
proof (induction n i stop rule: trial_division.induct)
  case (1 n i stop)
  show ?case
  proof (cases "i < stop")
    case False
    then have "\<not> i \<le> s" using "1.prems" by simp
    then show ?thesis using False by (simp add: trial_division.simps [of n i stop])
  next
    case True
    then have le: "i \<le> s" using "1.prems" by simp
    have im: "int_mod n i = Inr (n mod i)" using "1.prems" by (simp add: int_mod_def)
    show ?thesis
    proof (cases "n mod i = 0")
      case z: True
      then show ?thesis
        using True le "1.prems"(1) im
        by (simp add: trial_division.simps [of n i stop] filter_odd_upto [of i s])
    next
      case nz: False
      have "trial_division n (i + 2) stop =
          Inr (case find (\<lambda>j. n mod j = 0) (filter odd [i + 2..s]) of
                 None \<Rightarrow> Is_Prime n
               | Some d \<Rightarrow> Divisible_By n d)"
        using "1.IH" [OF True im nz] "1.prems" by simp
      then show ?thesis
        using True le "1.prems"(1) im nz
        by (simp add: trial_division.simps [of n i stop] filter_odd_upto [of i s])
    qed
  qed
qed


lemma float_of_int_exact:
  assumes "0 < n" "n < 2 ^ 53"
  shows "float_of_int n = Inr (of_int n)"
proof -
  have bd: "2 ^ bit_length n \<le> 2 * n" using bit_length_bounds [OF assms(1)] by simp
  have "(2::int) ^ bit_length n < 2 ^ 54" using bd assms(2) by simp
  then have "bit_length n < 54" by (rule power_less_imp_less_exp [rotated]) simp
  then show ?thesis using assms(1) by (simp add: float_of_int_def Let_def)
qed

lemma is_prime_below_2_52:
  assumes "2 \<le> n" "n < 2 ^ 52"
  shows "is_prime n = Inr (is_prime_spec n)"
proof (cases "n = 2 \<or> n mod 2 = 0")
  case True
  then show ?thesis using assms(1) by (auto simp: is_prime_def is_prime_spec_def int_mod_def)
next
  case False
  have f: "float_of_int n = Inr (of_int n)"
    using assms by (intro float_of_int_exact) simp_all
  obtain r where r: "math_sqrt (of_int n) = Inr r" "int_of_float r = isqrt n"
    using math_sqrt_int_exact [of n] assms by auto
  have "trial_division n 3 (isqrt n + 1) =
      Inr (case find (\<lambda>j. n mod j = 0) (filter odd [3..isqrt n]) of
             None \<Rightarrow> Is_Prime n
           | Some d \<Rightarrow> Divisible_By n d)"
    by (rule trial_division_find) simp_all
  then show ?thesis
    using False assms(1) f r by (simp add: is_prime_def is_prime_spec_def int_mod_def)
qed

lemma small_divisor:
  fixes n d :: int
  assumes "2 \<le> d" "d < n" "d dvd n"
  shows "\<exists>c. 2 \<le> c \<and> c * c \<le> n \<and> c dvd n"
proof -
  obtain q where q: "n = d * q" using assms(3) by (auto simp: dvd_def)
  have dpos: "0 < d" using assms(1) by simp
  have "1 < q"
  proof (rule ccontr)
    assume "\<not> 1 < q"
    then have "q \<le> 1" by simp
    then have "d * q \<le> d * 1" using dpos by (intro mult_left_mono) simp_all
    with q assms(2) show False by simp
  qed
  then have q2: "2 \<le> q" by simp
  show ?thesis
  proof (cases "d \<le> q")
    case True
    then have "d * d \<le> d * q" using dpos by (intro mult_left_mono) simp_all
    with q assms(1,3) show ?thesis by auto
  next
    case False
    then have "q * q \<le> d * q" using q2 by (intro mult_right_mono) simp_all
    moreover have "q dvd n" using q by simp
    ultimately show ?thesis using q q2 by auto
  qed
qed

lemma isqrt_less:
  assumes "2 \<le> n"
  shows "isqrt n < n"
proof -
  have n0: "0 \<le> n" using assms by simp
  note b = isqrt_bounds [OF n0]
  show ?thesis
  proof (rule ccontr)
    assume "\<not> isqrt n < n"
    then have le: "n \<le> isqrt n" by simp
    then have "2 * n \<le> isqrt n * n" using assms by (intro mult_right_mono) simp_all
    also have "\<dots> \<le> isqrt n * isqrt n" using le b by (intro mult_left_mono) simp_all
    finally show False using b assms by simp
  qed
qed

lemma not_ex_conj_ball: "(\<nexists>x. x \<in> A \<and> P x) = (\<forall>i\<in>A. \<not> P i)"
  by blast

lemma is_prime_spec_verdict:
  assumes "2 \<le> n"
  shows "(is_prime_spec n = Is_Prime n) = prime_ref n"
proof (cases "n = 2")
  case True
  then show ?thesis by (simp add: is_prime_spec_def prime_ref_def)
next
  case n2: False
  show ?thesis
  proof (cases "n mod 2 = 0")
    case True
    then have "2 dvd n" by presburger
    moreover have "2 \<in> {2..<n}" using assms n2 by simp
    ultimately have "\<not> prime_ref n" unfolding prime_ref_def by blast
    then show ?thesis using True n2 by (simp add: is_prime_spec_def)
  next
    case False
    then have oddn: "odd n" by presburger
    have n0: "0 \<le> n" using assms by simp
    note b = isqrt_bounds [OF n0]
    have spec: "(is_prime_spec n = Is_Prime n) =
        (\<forall>i\<in>set (filter odd [3..isqrt n]). n mod i \<noteq> 0)"
    proof -
      have "(is_prime_spec n = Is_Prime n) =
          (find (\<lambda>i. n mod i = 0) (filter odd [3..isqrt n]) = None)"
        using False n2 by (simp add: is_prime_spec_def split: option.splits)
      also have "\<dots> = (\<forall>i\<in>set (filter odd [3..isqrt n]). n mod i \<noteq> 0)"
        unfolding find_None_iff by (rule not_ex_conj_ball)
      finally show ?thesis .
    qed
    show ?thesis
    proof
      assume "is_prime_spec n = Is_Prime n"
      with spec have none: "\<And>i. 3 \<le> i \<Longrightarrow> i \<le> isqrt n \<Longrightarrow> odd i \<Longrightarrow> n mod i \<noteq> 0"
        by auto
      show "prime_ref n" unfolding prime_ref_def
      proof (intro ballI notI)
        fix d assume d: "d \<in> {2..<n}" and dv: "d dvd n"
        then obtain c where c: "2 \<le> c" "c * c \<le> n" "c dvd n"
          using small_divisor [of d n] by auto
        have "odd c" using c(3) oddn by (auto elim: dvd_trans)
        with c(1) have c3: "3 \<le> c" by presburger
        have "c * c < (isqrt n + 1) * (isqrt n + 1)" using c(2) b by linarith
        then have "c < isqrt n + 1" by (rule square_less_imp_less) (use b in simp)
        then have "c \<le> isqrt n" by simp
        from none [OF c3 this \<open>odd c\<close>] c(3) show False by (simp add: mod_eq_0_iff_dvd)
      qed
    next
      assume p: "prime_ref n"
      have "n mod i \<noteq> 0" if "i \<in> set (filter odd [3..isqrt n])" for i
      proof -
        from that have "3 \<le> i" "i \<le> isqrt n" by simp_all
        with isqrt_less [OF assms] have "i \<in> {2..<n}" by simp
        with p have "\<not> i dvd n" unfolding prime_ref_def by blast
        then show ?thesis by (simp add: mod_eq_0_iff_dvd)
      qed
      then have "\<forall>i\<in>set (filter odd [3..isqrt n]). n mod i \<noteq> 0" by (rule ballI)
      with spec show "is_prime_spec n = Is_Prime n" by (simp only:)
    qed
  qed
qed

text \<open>
  Below \<open>2 ^ 52\<close> the double square root truncates to the integer square root, and
  \<open>is_prime\<close> is the specification's algorithm; its verdict is the reference's.
\<close>

lemma is_prime_verdict_below_2_52:
  assumes "2 \<le> n" "n < 2 ^ 52"
  shows "(is_prime n = Inr (Is_Prime n)) = prime_ref n"
  using is_prime_below_2_52 [OF assms] is_prime_spec_verdict [OF assms(1)] by simp

lemma is_prime_17: "is_prime 17 = Inr (Is_Prime 17)"
  by code_simp

lemma is_prime_25: "is_prime 25 = Inr (Divisible_By 25 5)"
  by code_simp

lemma is_prime_spec_multiple_of_3:
  assumes "odd n" "9 \<le> n" "n mod 3 = 0"
  shows "is_prime_spec n = Divisible_By n 3"
proof -
  have n0: "0 \<le> n" using assms(2) by simp
  note b = isqrt_bounds [OF n0]
  have "3 \<le> isqrt n"
  proof (rule ccontr)
    assume "\<not> 3 \<le> isqrt n"
    then have "isqrt n + 1 \<le> 3" by simp
    then have "(isqrt n + 1) * (isqrt n + 1) \<le> 3 * 3"
      using b by (intro mult_mono) simp_all
    with b assms(2) show False by simp
  qed
  then have "filter odd [3..isqrt n] = 3 # filter odd [3 + 2..isqrt n]"
    using filter_odd_upto [of 3 "isqrt n"] by simp
  moreover have "n \<noteq> 2" "n mod 2 \<noteq> 0" using assms(1,2) by presburger+
  ultimately show ?thesis using assms(3) by (simp add: is_prime_spec_def)
qed

text \<open>
  Claim C1 says that for every integer \<open>n \<ge> 2\<close> \<open>is_prime\<close> answers: prime for 2, composite
  for an even \<open>n\<close>, and otherwise the outcome of trial division by the odd numbers from 3
  up to \<open>floor(sqrt(n))\<close>, which is the verdict of primality. The code takes the bound
  from \<^verbatim>\<open>math.sqrt(n)\<close>, which converts \<open>n\<close> to a double first. For the odd number
  \<open>2 ^ 1024 + 5\<close>, a multiple of 3, the algorithm of the claim reports the divisor 3;
  the code raises \<open>OverflowError\<close> and reports nothing.
\<close>

theorem is_prime_huge_raises:
  "is_prime (2 ^ 1024 + 5) = Inl OverflowError \<and>
   is_prime_spec (2 ^ 1024 + 5) = Divisible_By (2 ^ 1024 + 5) 3"
proof
  show "is_prime (2 ^ 1024 + 5) = Inl OverflowError"
    by (rule is_prime_overflow) simp_all
  show "is_prime_spec (2 ^ 1024 + 5) = Divisible_By (2 ^ 1024 + 5) 3"
    by (rule is_prime_spec_multiple_of_3) simp_all
qed

subsection \<open>Primality: even numbers\<close>

text \<open>
  Claim C4 says that \<open>is_prime(18)\<close> reports composite together with a witness divisor
  that is 2 or 3. The even branch returns \<^verbatim>\<open>f"{n} is not prime"\<close>, which names no
  divisor: the reply is neither "divisible by 2" nor "divisible by 3".
\<close>

theorem is_prime_18_no_witness:
  "\<not> (is_prime 18 = Inr (Divisible_By 18 2) \<or> is_prime 18 = Inr (Divisible_By 18 3))"
  by (simp add: is_prime_def int_mod_def)

text \<open>
  Claim C4, amended. \<open>is_prime(18)\<close> reports composite with the reply "18 is not prime",
  which names no witness divisor.
\<close>

theorem is_prime_18: "is_prime 18 = Inr (Is_Not_Prime 18)"
  by (simp add: is_prime_def int_mod_def)

end
